theory Spec2Isabelle
  imports Complex_Main
begin

section \<open>Cell values\<close>

text \<open>
  \<^verbatim>\<open>getValues()\<close> yields, for every cell of a range, a string, a number, a boolean
  or a date; a blank cell is the empty string and \<^verbatim>\<open>null\<close> is never produced, so
  the script's test \<^verbatim>\<open>v !== null\<close> holds for every value of the type below. A
  string is text in UTF-8. A number is a rational: every finite double is one, and a
  cell holds neither \<^verbatim>\<open>NaN\<close> nor an infinity. A date is \<open>DateV ms s\<close>: its time
  value in milliseconds and the text that \<^verbatim>\<open>String\<close> gives for it in the time zone
  of the script. The time stamp \<^verbatim>\<open>new Date()\<close> that \<^verbatim>\<open>appendLog_\<close> writes is
  a parameter \<open>now\<close> of the model.
\<close>

datatype cell = Str string | Num rat | Bool bool | DateV int string

text \<open>JavaScript truthiness, as used by \<^verbatim>\<open>!code\<close>, \<^verbatim>\<open>&& target\<close> and \<^verbatim>\<open>||\<close>.\<close>

fun truthy :: "cell \<Rightarrow> bool" where
  "truthy (Str s) = (s \<noteq> [])"
| "truthy (Num n) = (n \<noteq> 0)"
| "truthy (Bool b) = b"
| "truthy (DateV ms s) = True"

section \<open>The built-in functions of the engine\<close>

text \<open>
  The script calls four functions that are no code of the repository: they are
  algorithms of the language standard over the tables of the Unicode database.
  \<^item> \<^verbatim>\<open>String.prototype.trim\<close>, which strips every white space and line
    terminator of the standard (the no-break space and the other space separators
    among them) from both ends;
  \<^item> \<^verbatim>\<open>String.prototype.toUpperCase\<close>, which maps every code point by the
    Unicode case mapping;
  \<^item> the conversion of a number to a string, inside \<^verbatim>\<open>String(v)\<close> and
    \<^verbatim>\<open>v.toString()\<close>;
  \<^item> the conversion of a string to a number, inside \<^verbatim>\<open>Number(v)\<close>, where \<open>None\<close>
    stands for a result that is no finite number.
  They are parameters of the model: a value of the record below is an engine, and
  every function of the script that calls one of them takes the engine as its first
  argument. The general theorems hold for every engine, or for every engine with the
  facts of the standard that \<open>engineFacts\<close> lists below, so for the real one.
\<close>

record builtins =
  trim :: "string \<Rightarrow> string"
  toUpperCase :: "string \<Rightarrow> string"
  numberToString :: "rat \<Rightarrow> string"
  stringToNumber :: "string \<Rightarrow> rat option"

text \<open>\<^verbatim>\<open>String(v)\<close> and \<^verbatim>\<open>v.toString()\<close>.\<close>

fun jsString :: "builtins \<Rightarrow> cell \<Rightarrow> string" where
  "jsString js (Str s) = s"
| "jsString js (Num n) = numberToString js n"
| "jsString js (Bool b) = (if b then ''true'' else ''false'')"
| "jsString js (DateV ms s) = s"

text \<open>\<^verbatim>\<open>Number(v)\<close>; \<open>None\<close> is \<^verbatim>\<open>NaN\<close> or an infinity, which equal no row number.\<close>

fun jsNumber :: "builtins \<Rightarrow> cell \<Rightarrow> rat option" where
  "jsNumber js (Num n) = Some n"
| "jsNumber js (Bool b) = Some (if b then 1 else 0)"
| "jsNumber js (Str s) = stringToNumber js s"
| "jsNumber js (DateV ms s) = Some (of_int ms)"

text \<open>\<^verbatim>\<open>arr.join(sep)\<close> on an array of strings.\<close>

fun join :: "string \<Rightarrow> string list \<Rightarrow> string" where
  "join sep [] = []"
| "join sep [x] = x"
| "join sep (x # y # ys) = x @ sep @ join sep (y # ys)"

section \<open>The spreadsheet\<close>

text \<open>
  A sheet is its name and a grid of values: row \<open>r\<close> of the sheet is element \<open>r - 1\<close> of
  the list, column \<open>c\<close> is element \<open>c - 1\<close> of the row, and every cell that the lists do
  not reach is blank. The grid has no bound on rows or columns. A spreadsheet is the
  list of its sheets in tab order, and a sheet handle is a position in that list, so
  that two handles of one tab alias.
\<close>

type_synonym grid = "cell list list"

record sheet =
  getName :: string
  cells :: grid

type_synonym spreadsheet = "sheet list"

datatype error = RangeError | TypeError

definition cellAt :: "grid \<Rightarrow> nat \<Rightarrow> nat \<Rightarrow> cell" where
  "cellAt g r c =
     (if 1 \<le> r \<and> r \<le> length g \<and> 1 \<le> c \<and> c \<le> length (g ! (r - 1))
      then g ! (r - 1) ! (c - 1) else Str [])"

text \<open>
  \<^verbatim>\<open>sheet.getRange(row, col, numRows, numCols).getValues()\<close>. The service raises when
  \<open>row\<close> or \<open>col\<close> is below 1 or an extent is below 1; the callers below write that
  branch out wherever an argument is not a constant.
\<close>

definition getValues :: "sheet \<Rightarrow> nat \<Rightarrow> nat \<Rightarrow> nat \<Rightarrow> nat \<Rightarrow> cell list list" where
  "getValues sh row col numRows numCols =
     map (\<lambda>r. map (\<lambda>c. cellAt (cells sh) r c) [col ..< col + numCols]) [row ..< row + numRows]"

text \<open>
  \<^verbatim>\<open>sheet.getLastRow()\<close>: the last row that holds a non-blank cell in any column,
  0 when there is none.
\<close>

definition blankRow :: "cell list \<Rightarrow> bool" where
  "blankRow row = list_all (\<lambda>v. v = Str []) row"

fun lastRowOf :: "grid \<Rightarrow> nat" where
  "lastRowOf [] = 0"
| "lastRowOf (row # rows) =
     (let n = lastRowOf rows in if n = 0 then (if blankRow row then 0 else 1) else Suc n)"

definition getLastRow :: "sheet \<Rightarrow> nat" where
  "getLastRow sh = lastRowOf (cells sh)"

text \<open>
  \<^verbatim>\<open>sheet.getRange(row, col, 1, vals.length).setValues([vals])\<close> for \<open>row, col \<ge> 1\<close>:
  the grid is extended with blank cells as far as the range reaches.
\<close>

definition padTo :: "nat \<Rightarrow> 'a \<Rightarrow> 'a list \<Rightarrow> 'a list" where
  "padTo n x xs = xs @ replicate (n - length xs) x"

definition writeCells :: "nat \<Rightarrow> cell list \<Rightarrow> cell list \<Rightarrow> cell list" where
  "writeCells col vals row =
     (let row' = padTo (col - 1 + length vals) (Str []) row
      in take (col - 1) row' @ vals @ drop (col - 1 + length vals) row')"

definition setRowValues :: "sheet \<Rightarrow> nat \<Rightarrow> nat \<Rightarrow> cell list \<Rightarrow> sheet" where
  "setRowValues sh row col vals =
     (let g = padTo row [] (cells sh)
      in sh\<lparr>cells := g[row - 1 := writeCells col vals (g ! (row - 1))]\<rparr>)"

text \<open>\<^verbatim>\<open>sheet.appendRow(vals)\<close>: writes the row below the last row that holds data.\<close>

definition appendRow :: "sheet \<Rightarrow> cell list \<Rightarrow> sheet" where
  "appendRow sh vals = setRowValues sh (getLastRow sh + 1) 1 vals"

text \<open>
  \<^verbatim>\<open>ss.getSheetByName(n)\<close>: the handle of the first tab with exactly that name, or
  \<^verbatim>\<open>null\<close>. The script relies on no more than that: \<^verbatim>\<open>getOrCreateSheet_\<close>
  searches the tab names itself for a match up to case and white space.
\<close>

fun indexOfName :: "string \<Rightarrow> sheet list \<Rightarrow> nat \<Rightarrow> nat option" where
  "indexOfName n [] i = None"
| "indexOfName n (s # ss) i = (if getName s = n then Some i else indexOfName n ss (Suc i))"

definition getSheetByName :: "spreadsheet \<Rightarrow> string \<Rightarrow> nat option" where
  "getSheetByName ss n = indexOfName n ss 0"

text \<open>\<^verbatim>\<open>ss.insertSheet(n)\<close>: a new blank tab, placed last; returns the store and the handle.\<close>

definition insertSheet :: "spreadsheet \<Rightarrow> string \<Rightarrow> spreadsheet \<times> nat" where
  "insertSheet ss n = (ss @ [\<lparr>getName = n, cells = []\<rparr>], length ss)"

section \<open>The routing script\<close>

text \<open>
  The functions of \<^verbatim>\<open>RouteDropOff.js\<close>, under the names of the source without the
  trailing underscore. The toast at the end of a routing is not a part of the store
  and is left out.
\<close>

definition DROP_OFF_SHEET :: string where "DROP_OFF_SHEET = ''DROP_OFF''"
definition CONFIG_SHEET :: string where "CONFIG_SHEET = ''CONFIG''"
definition LOG_SHEET :: string where "LOG_SHEET = ''LOG''"

definition ORDERS_HEADER :: "string list" where
  "ORDERS_HEADER = [''PART'', ''LOC'', ''CUSTM'', ''PRICE'', ''DATE'', ''DESCR'']"

definition ACCOUNT_HEADER :: "string list" where
  "ACCOUNT_HEADER = [''PART'', ''LOC'', ''CUSTM'', ''PRICE'']"

subsection \<open>\<^verbatim>\<open>nextRowByFirstNCols_\<close>\<close>

text \<open>
  The loop \<^verbatim>\<open>for (let i = values.length - 1; i >= 0; i--)\<close>; the second argument is
  \<open>i + 1\<close>.
\<close>

fun scanBack :: "cell list list \<Rightarrow> nat \<Rightarrow> nat" where
  "scanBack values 0 = 2"
| "scanBack values (Suc i) =
     (if list_ex (\<lambda>v. v \<noteq> Str []) (values ! i) then 2 + i + 1 else scanBack values i)"

definition nextRowByFirstNCols :: "sheet \<Rightarrow> nat \<Rightarrow> error + nat" where
  "nextRowByFirstNCols sh N =
     (let last = getLastRow sh in
      if last < 2 then Inr 2
      else if N < 1 then Inl RangeError
      else
        let width = N;
            height = max 0 (last - 1);
            values = getValues sh 2 1 height width
        in Inr (scanBack values (length values)))"

subsection \<open>\<^verbatim>\<open>lookupDestination_\<close>\<close>

record dest =
  name :: string
  isDefault :: bool

text \<open>The first loop: the last row flagged \<^verbatim>\<open>TRUE\<close> with a truthy target.\<close>

fun defaultLoop :: "builtins \<Rightarrow> cell option \<Rightarrow> cell list list \<Rightarrow> cell option" where
  "defaultLoop js defaultTarget [] = defaultTarget"
| "defaultLoop js defaultTarget (row # rows) =
     defaultLoop js
       (if toUpperCase js (jsString js (row ! 2)) = ''TRUE'' \<and> truthy (row ! 1)
        then Some (row ! 1) else defaultTarget) rows"

text \<open>\<^verbatim>\<open>target || defaultTarget || 'ORDERS'\<close>, with \<^verbatim>\<open>null\<close> as \<open>None\<close>.\<close>

definition firstTruthy :: "cell \<Rightarrow> cell option \<Rightarrow> cell" where
  "firstTruthy target defaultTarget =
     (if truthy target then target
      else case defaultTarget of
             Some t \<Rightarrow> if truthy t then t else Str ''ORDERS''
           | None \<Rightarrow> Str ''ORDERS'')"

text \<open>The second loop, and the \<^verbatim>\<open>return\<close> that follows it.\<close>

fun matchLoop :: "builtins \<Rightarrow> cell \<Rightarrow> cell option \<Rightarrow> cell list list \<Rightarrow> dest" where
  "matchLoop js custm defaultTarget [] =
     \<lparr>name = jsString js (firstTruthy (Str []) defaultTarget), isDefault = True\<rparr>"
| "matchLoop js custm defaultTarget (row # rows) =
     (if \<not> truthy (row ! 0) then matchLoop js custm defaultTarget rows
      else if toUpperCase js (trim js (jsString js (row ! 0))) = toUpperCase js (trim js (jsString js custm))
      then \<lparr>name = jsString js (firstTruthy (row ! 1) defaultTarget), isDefault = False\<rparr>
      else matchLoop js custm defaultTarget rows)"

definition lookupDestination :: "builtins \<Rightarrow> spreadsheet \<Rightarrow> cell \<Rightarrow> dest option" where
  "lookupDestination js ss custm =
     (case getSheetByName ss CONFIG_SHEET of
        None \<Rightarrow> None
      | Some cfg \<Rightarrow>
          let last = getLastRow (ss ! cfg) in
          if last < 2 then None
          else
            let rows = getValues (ss ! cfg) 2 1 (last - 1) 3;
                defaultTarget = defaultLoop js None rows
            in Some (matchLoop js custm defaultTarget rows))"

subsection \<open>\<^verbatim>\<open>getOrCreateSheet_\<close>\<close>

text \<open>
  Returns the store and the handle; the handle is \<open>None\<close> where the source would hold
  \<^verbatim>\<open>null\<close> (the tab found by name has gone when it is fetched).
\<close>

definition getOrCreateSheet :: "builtins \<Rightarrow> spreadsheet \<Rightarrow> string \<Rightarrow> spreadsheet \<times> nat option" where
  "getOrCreateSheet js ss nm =
     (let wanted = trim js nm in
      case getSheetByName ss wanted of
        Some sh \<Rightarrow> (ss, Some sh)
      | None \<Rightarrow>
          (case find (\<lambda>n. toUpperCase js (trim js n) = toUpperCase js wanted) (map getName ss) of
             Some match \<Rightarrow>
               if match \<noteq> [] then (ss, getSheetByName ss match)
               else (let (ss', sh) = insertSheet ss wanted in (ss', Some sh))
           | None \<Rightarrow> (let (ss', sh) = insertSheet ss wanted in (ss', Some sh))))"

subsection \<open>\<^verbatim>\<open>ensureHeaders_\<close>\<close>

definition ensureHeaders :: "builtins \<Rightarrow> sheet \<Rightarrow> string list \<Rightarrow> error + sheet" where
  "ensureHeaders js sh header =
     (let width = length header in
      if width < 1 then Inl RangeError
      else
        let current = map (\<lambda>v. toUpperCase js (jsString js v)) (getValues sh 1 1 1 width ! 0);
            wanted = map (toUpperCase js) header
        in if join ''|'' current \<noteq> join ''|'' wanted
           then Inr (setRowValues sh 1 1 (map Str header))
           else Inr sh)"

subsection \<open>The ledger\<close>

definition buildKey :: "builtins \<Rightarrow> cell list \<Rightarrow> string" where
  "buildKey js arrAtoF = toUpperCase js (join ''||'' (map (\<lambda>v. trim js (jsString js v)) arrAtoF))"

definition rowWasLogged :: "builtins \<Rightarrow> spreadsheet \<Rightarrow> nat \<Rightarrow> bool" where
  "rowWasLogged js ss row =
     (case getSheetByName ss LOG_SHEET of
        None \<Rightarrow> False
      | Some logSheet \<Rightarrow>
          let last = getLastRow (ss ! logSheet) in
          if last < 2 then False
          else
            let rows = concat (getValues (ss ! logSheet) 2 4 (last - 1) 1)
            in list_ex (\<lambda>v. jsNumber js v = Some (of_nat row)) rows)"

definition appendLog :: "spreadsheet \<Rightarrow> string \<Rightarrow> string \<Rightarrow> nat \<Rightarrow> cell \<Rightarrow> spreadsheet" where
  "appendLog ss key destName row now =
     (let (ss1, logSheet) =
        (case getSheetByName ss LOG_SHEET of
           Some l \<Rightarrow> (ss, l)
         | None \<Rightarrow>
             (let (ss', l) = insertSheet ss LOG_SHEET
              in (ss'[l := setRowValues (ss' ! l) 1 1 [Str ''KEY'', Str ''WHEN'', Str ''DEST'', Str ''ROW'']], l)))
      in ss1[logSheet := appendRow (ss1 ! logSheet) [Str key, now, Str destName, Num (of_nat row)]])"

subsection \<open>\<^verbatim>\<open>withLock_\<close> and \<^verbatim>\<open>routeRowSafe_\<close>\<close>

text \<open>
  \<open>acquired\<close> is what \<^verbatim>\<open>lock.tryLock(5000)\<close> returns: whether the document lock was
  obtained within five seconds. The source drops that result and calls \<^verbatim>\<open>fn\<close>;
  \<^verbatim>\<open>releaseLock\<close> has no effect on the store.
\<close>

definition withLock :: "bool \<Rightarrow> (spreadsheet \<Rightarrow> error + spreadsheet) \<Rightarrow> spreadsheet \<Rightarrow> error + spreadsheet" where
  "withLock acquired fn ss = fn ss"

text \<open>
  The function passed to \<^verbatim>\<open>withLock_\<close>. \<open>Inl\<close> is an exception that leaves the
  function; the exceptions of the model are raised before the first write.
\<close>

definition routeBody :: "builtins \<Rightarrow> cell \<Rightarrow> nat \<Rightarrow> spreadsheet \<Rightarrow> error + spreadsheet" where
  "routeBody js now row ss =
     (case getSheetByName ss DROP_OFF_SHEET of
        None \<Rightarrow> Inr ss
      | Some dropSheet \<Rightarrow>
          if row < 1 then Inl RangeError
          else
            let vals = getValues (ss ! dropSheet) row 1 1 6 ! 0 in
            if \<not> list_all (\<lambda>v. v \<noteq> Str []) vals then Inr ss
            else if rowWasLogged js ss row then Inr ss
            else
              (case lookupDestination js ss (vals ! 2) of
                 None \<Rightarrow> Inr ss
               | Some dest \<Rightarrow>
                   if name dest = [] then Inr ss
                   else
                     (case getOrCreateSheet js ss (name dest) of
                        (ss1, None) \<Rightarrow> Inl TypeError
                      | (ss1, Some target) \<Rightarrow>
                          let isOrders = (toUpperCase js (trim js (name dest)) = ''ORDERS'' \<or> isDefault dest)
                          in (case ensureHeaders js (ss1 ! target) (if isOrders then ORDERS_HEADER else ACCOUNT_HEADER) of
                                Inl e \<Rightarrow> Inl e
                              | Inr hdr \<Rightarrow>
                                  let ss2 = ss1[target := hdr] in
                                  (case nextRowByFirstNCols (ss2 ! target) 6 of
                                     Inl e \<Rightarrow> Inl e
                                   | Inr next \<Rightarrow>
                                       let ss3 = ss2[target := setRowValues (ss2 ! target) next 1 vals]
                                       in Inr (appendLog ss3 (buildKey js vals) (name dest) row now))))))"

definition routeRowSafe :: "builtins \<Rightarrow> bool \<Rightarrow> cell \<Rightarrow> nat \<Rightarrow> spreadsheet \<Rightarrow> error + spreadsheet" where
  "routeRowSafe js acquired now row ss = withLock acquired (routeBody js now row) ss"

text \<open>
  \<open>n\<close> successive invocations of \<^verbatim>\<open>routeRowSafe_\<close> for one row, as repeated edits
  of that row make the dispatcher issue them; an exception ends the sequence.
\<close>

fun repeatRoute :: "builtins \<Rightarrow> nat \<Rightarrow> bool \<Rightarrow> cell \<Rightarrow> nat \<Rightarrow> spreadsheet \<Rightarrow> error + spreadsheet" where
  "repeatRoute js 0 acquired now row ss = Inr ss"
| "repeatRoute js (Suc n) acquired now row ss =
     (case routeRowSafe js acquired now row ss of
        Inl e \<Rightarrow> Inl e
      | Inr ss' \<Rightarrow> repeatRoute js n acquired now row ss')"

section \<open>Vocabulary of the statements\<close>

text \<open>
  The rows that \<^verbatim>\<open>lookupDestination_\<close> reads from the configuration tab (columns A
  to C below the header), the test of its second loop on one row, and the test of its
  first loop on one row.
\<close>

definition configRows :: "sheet \<Rightarrow> cell list list" where
  "configRows cfg = getValues cfg 2 1 (getLastRow cfg - 1) 3"

definition ruleMatches :: "builtins \<Rightarrow> cell \<Rightarrow> cell list \<Rightarrow> bool" where
  "ruleMatches js custm row =
     (truthy (row ! 0) \<and> toUpperCase js (trim js (jsString js (row ! 0))) = toUpperCase js (trim js (jsString js custm)))"

definition flaggedDefault :: "builtins \<Rightarrow> cell list \<Rightarrow> bool" where
  "flaggedDefault js row = (toUpperCase js (jsString js (row ! 2)) = ''TRUE'' \<and> truthy (row ! 1))"

text \<open>
  The active default of a configuration: the target of the last row, in table order,
  that carries the flag and a truthy target; \<open>None\<close> when no row does.
\<close>

definition activeDefault :: "builtins \<Rightarrow> cell list list \<Rightarrow> cell option" where
  "activeDefault js rows = (case filter (flaggedDefault js) rows of [] \<Rightarrow> None | fs \<Rightarrow> Some (last fs ! 1))"

text \<open>
  The default as the sentence of claim C6 words it: the target of the last row that
  carries the flag, whatever its target, and \<^verbatim>\<open>ORDERS\<close> when no row is flagged.
\<close>

definition claimedDefault :: "builtins \<Rightarrow> cell list list \<Rightarrow> string" where
  "claimedDefault js rows =
     (case filter (\<lambda>row. toUpperCase js (jsString js (row ! 2)) = ''TRUE'') rows of
        [] \<Rightarrow> ''ORDERS'' | fs \<Rightarrow> jsString js (last fs ! 1))"

text \<open>Row \<open>r\<close> of a sheet holds data in its first \<open>N\<close> columns.\<close>

definition hasDataIn :: "sheet \<Rightarrow> nat \<Rightarrow> nat \<Rightarrow> bool" where
  "hasDataIn sh N r = list_ex (\<lambda>c. cellAt (cells sh) r c \<noteq> Str []) [1 ..< Suc N]"

text \<open>
  The header row of a sheet equals the expected header, cell by cell, after
  \<^verbatim>\<open>String\<close> and \<^verbatim>\<open>toUpperCase\<close>.
\<close>

definition headerMatches :: "builtins \<Rightarrow> sheet \<Rightarrow> string list \<Rightarrow> bool" where
  "headerMatches js sh header =
     (map (\<lambda>c. toUpperCase js (jsString js (cellAt (cells sh) 1 c))) [1 ..< Suc (length header)]
      = map (toUpperCase js) header)"

text \<open>Two tab names are equal up to surrounding white space and letter case.\<close>

definition sameTabName :: "builtins \<Rightarrow> string \<Rightarrow> string \<Rightarrow> bool" where
  "sameTabName js a b = (toUpperCase js (trim js a) = toUpperCase js (trim js b))"

text \<open>
  Four facts of the standard about the built-in functions, which hold of every
  engine: trimming the empty string gives the empty string, trimming twice is
  trimming once, upper-casing gives the empty string for the empty string only, and
  the six header words, which consist of ASCII capital letters, are their own upper
  case.
\<close>

definition engineFacts :: "builtins \<Rightarrow> bool" where
  "engineFacts js \<longleftrightarrow>
     trim js [] = []
     \<and> (\<forall>s. trim js (trim js s) = trim js s)
     \<and> (\<forall>s. toUpperCase js s = [] \<longleftrightarrow> s = [])
     \<and> (\<forall>h \<in> set ORDERS_HEADER. toUpperCase js h = h)"

section \<open>Example stores\<close>

text \<open>
  An engine for the examples only; no general theorem refers to it. Its functions
  coincide with the built-in ones on the arguments that the examples pass to them.
  On text that consists of ASCII characters, \<^verbatim>\<open>trim\<close> strips the characters 9 to
  13 and 32 and \<^verbatim>\<open>toUpperCase\<close> maps the letters a to z. An integer below
  \<open>10\<^sup>2\<^sup>1\<close> in absolute value prints in plain decimal. A string that is, trimmed,
  empty or an optionally signed run of digits converts to that integer. The example
  stores hold ASCII text and small integers, and no example converts another string
  to a number.
\<close>

definition asciiUpperChar :: "char \<Rightarrow> char" where
  "asciiUpperChar c = (let n = (of_char c :: nat) in if 97 \<le> n \<and> n \<le> 122 then char_of (n - 32) else c)"

definition asciiUpper :: "string \<Rightarrow> string" where
  "asciiUpper s = map asciiUpperChar s"

definition asciiSpace :: "char \<Rightarrow> bool" where
  "asciiSpace c = (let n = (of_char c :: nat) in n = 32 \<or> (9 \<le> n \<and> n \<le> 13))"

definition asciiTrim :: "string \<Rightarrow> string" where
  "asciiTrim s = rev (dropWhile asciiSpace (rev (dropWhile asciiSpace s)))"

definition digit :: "nat \<Rightarrow> char" where
  "digit d = char_of (48 + d)"

fun showNat :: "nat \<Rightarrow> string" where
  "showNat n = (if n < 10 then [digit n] else showNat (n div 10) @ [digit (n mod 10)])"

declare showNat.simps [simp del]

definition decimalString :: "rat \<Rightarrow> string" where
  "decimalString q = (let n = \<lfloor>q\<rfloor> in if n < 0 then CHR ''-'' # showNat (nat (- n)) else showNat (nat n))"

definition isDigit :: "char \<Rightarrow> bool" where
  "isDigit c = (let n = (of_char c :: nat) in 48 \<le> n \<and> n \<le> 57)"

definition digitsValue :: "string \<Rightarrow> nat" where
  "digitsValue s = foldl (\<lambda>acc c. 10 * acc + ((of_char c :: nat) - 48)) 0 s"

definition decimalNumber :: "string \<Rightarrow> rat option" where
  "decimalNumber s =
     (let t = asciiTrim s in
      if t = [] then Some 0
      else if hd t = CHR ''-'' \<and> tl t \<noteq> [] \<and> list_all isDigit (tl t) then Some (- of_nat (digitsValue (tl t)))
      else if hd t = CHR ''+'' \<and> tl t \<noteq> [] \<and> list_all isDigit (tl t) then Some (of_nat (digitsValue (tl t)))
      else if list_all isDigit t then Some (of_nat (digitsValue t))
      else None)"

definition exEngine :: builtins where
  "exEngine = \<lparr>trim = asciiTrim, toUpperCase = asciiUpper,
                numberToString = decimalString, stringToNumber = decimalNumber\<rparr>"

text \<open>
  Two dates, 1 January 2024 and 3 November 2024, 08:00, in a script running in UTC,
  and the content key of the complete row of the staging tab below.
\<close>

definition exDate :: cell where
  "exDate = DateV 1704067200000 ''Mon Jan 01 2024 00:00:00 GMT+0000 (Coordinated Universal Time)''"

definition exNow :: cell where
  "exNow = DateV 1730620800000 ''Sun Nov 03 2024 08:00:00 GMT+0000 (Coordinated Universal Time)''"

definition exKey :: string where
  "exKey = ''P1||L1||ACME||5||MON JAN 01 2024 00:00:00 GMT+0000 (COORDINATED UNIVERSAL TIME)||D''"

text \<open>
  A staging tab with a complete row 2 and an incomplete row 3, and a configuration
  with an exact rule and a default rule.
\<close>

definition exDropOff :: sheet where
  "exDropOff = \<lparr>getName = ''DROP_OFF'', cells =
     [[Str ''PART'', Str ''LOC'', Str ''CUSTM'', Str ''PRICE'', Str ''DATE'', Str ''DESCR''],
      [Str ''P1'', Str ''L1'', Str ''acme'', Num 5, exDate, Str ''d''],
      [Str ''P2'', Str ''L2'', Str ''acme'', Str [], exDate, Str ''e'']]\<rparr>"

definition exConfig :: sheet where
  "exConfig = \<lparr>getName = ''CONFIG'', cells =
     [[Str ''CODE'', Str ''TARGET'', Str ''DEFAULT''],
      [Str ''ACME'', Str ''ACME_TAB'', Str []],
      [Str ''*'', Str ''ORDERS'', Bool True]]\<rparr>"

definition exStore :: spreadsheet where
  "exStore = [exDropOff, exConfig]"

text \<open>The same store without a configuration tab, and with one that holds its header only.\<close>

definition exNoConfig :: spreadsheet where
  "exNoConfig = [exDropOff]"

definition exHeaderOnlyConfig :: spreadsheet where
  "exHeaderOnlyConfig =
     [exDropOff, \<lparr>getName = ''CONFIG'', cells = [[Str ''CODE'', Str ''TARGET'', Str ''DEFAULT'']]\<rparr>]"

text \<open>
  A configuration whose only rule has the number 0 as its code, one whose only rule
  has the number 0 as its target, and one whose last flagged rule has a blank target.
\<close>

definition exZeroCode :: spreadsheet where
  "exZeroCode =
     [exDropOff, \<lparr>getName = ''CONFIG'', cells =
        [[Str ''CODE'', Str ''TARGET'', Str ''DEFAULT''],
         [Num 0, Str ''ZERO_TAB'', Str []]]\<rparr>]"

definition exZeroTarget :: spreadsheet where
  "exZeroTarget =
     [exDropOff, \<lparr>getName = ''CONFIG'', cells =
        [[Str ''CODE'', Str ''TARGET'', Str ''DEFAULT''],
         [Str ''ACME'', Num 0, Str []]]\<rparr>]"

definition exTwoDefaults :: spreadsheet where
  "exTwoDefaults =
     [exDropOff, \<lparr>getName = ''CONFIG'', cells =
        [[Str ''CODE'', Str ''TARGET'', Str ''DEFAULT''],
         [Str ''A'', Str ''T1'', Str ''TRUE''],
         [Str ''B'', Str [], Str ''true'']]\<rparr>]"

text \<open>
  A destination with data in rows 2 to 5 of columns A to F, and in row 6 a value in
  column G only.
\<close>

definition exDestination :: sheet where
  "exDestination = \<lparr>getName = ''ORDERS'', cells =
     [[Str ''PART'', Str ''LOC'', Str ''CUSTM'', Str ''PRICE'', Str ''DATE'', Str ''DESCR''],
      [Str ''P1'', Str ''L1'', Str ''C1'', Num 1, Str ''D1'', Str ''a''],
      [Str ''P2'', Str ''L2'', Str ''C2'', Num 2, Str ''D2'', Str ''b''],
      [Str ''P3'', Str ''L3'', Str ''C3'', Num 3, Str ''D3'', Str ''c''],
      [Str ''P4'', Str ''L4'', Str ''C4'', Num 4, Str ''D4'', Str ''d''],
      [Str [], Str [], Str [], Str [], Str [], Str [], Str ''stray'']]\<rparr>"

text \<open>A destination whose header is the minimal layout in lower case.\<close>

definition exLowerHeader :: sheet where
  "exLowerHeader = \<lparr>getName = ''ACME_TAB'', cells =
     [[Str ''part'', Str ''loc'', Str ''custm'', Str ''price'', Str ''note''],
      [Str ''P1'', Str ''L1'', Str ''acme'', Num 5, exDate, Str ''d'']]\<rparr>"

text \<open>
  A store whose ledger tab exists and is blank, and the stores that one and two
  invocations for row 2 leave.
\<close>

definition exBlankLedger :: spreadsheet where
  "exBlankLedger = [exDropOff, exConfig, \<lparr>getName = ''LOG'', cells = []\<rparr>]"

definition exRoutedOnce :: spreadsheet where
  "exRoutedOnce =
     [exDropOff, exConfig,
      \<lparr>getName = ''LOG'', cells =
         [[Str exKey, exNow, Str ''ACME_TAB'', Num 2]]\<rparr>,
      \<lparr>getName = ''ACME_TAB'', cells =
         [[Str ''PART'', Str ''LOC'', Str ''CUSTM'', Str ''PRICE''],
          [Str ''P1'', Str ''L1'', Str ''acme'', Num 5, exDate, Str ''d'']]\<rparr>]"

definition exRoutedTwice :: spreadsheet where
  "exRoutedTwice =
     [exDropOff, exConfig,
      \<lparr>getName = ''LOG'', cells =
         [[Str exKey, exNow, Str ''ACME_TAB'', Num 2],
          [Str exKey, exNow, Str ''ACME_TAB'', Num 2]]\<rparr>,
      \<lparr>getName = ''ACME_TAB'', cells =
         [[Str ''PART'', Str ''LOC'', Str ''CUSTM'', Str ''PRICE''],
          [Str ''P1'', Str ''L1'', Str ''acme'', Num 5, exDate, Str ''d''],
          [Str ''P1'', Str ''L1'', Str ''acme'', Num 5, exDate, Str ''d'']]\<rparr>]"

text \<open>
  A configuration whose exact rule for \<^verbatim>\<open>ACME\<close> names the tab \<^verbatim>\<open>orders\<close>, and the
  store that routing row 2 leaves.
\<close>

definition exOrdersRule :: spreadsheet where
  "exOrdersRule =
     [exDropOff, \<lparr>getName = ''CONFIG'', cells =
        [[Str ''CODE'', Str ''TARGET'', Str ''DEFAULT''],
         [Str ''ACME'', Str '' orders '', Str []]]\<rparr>]"

definition exOrdersRouted :: spreadsheet where
  "exOrdersRouted =
     [exDropOff, \<lparr>getName = ''CONFIG'', cells =
        [[Str ''CODE'', Str ''TARGET'', Str ''DEFAULT''],
         [Str ''ACME'', Str '' orders '', Str []]]\<rparr>,
      \<lparr>getName = ''orders'', cells =
         [[Str ''PART'', Str ''LOC'', Str ''CUSTM'', Str ''PRICE'', Str ''DATE'', Str ''DESCR''],
          [Str ''P1'', Str ''L1'', Str ''acme'', Num 5, exDate, Str ''d'']]\<rparr>,
      \<lparr>getName = ''LOG'', cells =
         [[Str ''KEY'', Str ''WHEN'', Str ''DEST'', Str ''ROW''],
          [Str exKey, exNow, Str '' orders '', Num 2]]\<rparr>]"

text \<open>A destination with data in rows 2 and 4 and a blank row 3 between them.\<close>

definition exGap :: sheet where
  "exGap = \<lparr>getName = ''ORDERS'', cells =
     [[Str ''PART'', Str ''LOC'', Str ''CUSTM'', Str ''PRICE'', Str ''DATE'', Str ''DESCR''],
      [Str ''P1'', Str ''L1'', Str ''C1'', Num 1, Str ''D1'', Str ''a''],
      [],
      [Str ''P3'', Str ''L3'', Str ''C3'', Num 3, Str ''D3'', Str ''c'']]\<rparr>"

section \<open>The grid: reads, the last row, writes\<close>

lemma engineFacts_trim_Nil: "engineFacts js \<Longrightarrow> trim js [] = []"
  by (simp add: engineFacts_def)

lemma engineFacts_trim_idem: "engineFacts js \<Longrightarrow> trim js (trim js s) = trim js s"
  by (simp add: engineFacts_def)

lemma engineFacts_upper_Nil: "engineFacts js \<Longrightarrow> toUpperCase js [] = []"
  by (simp add: engineFacts_def)

lemma engineFacts_upper_Nil_only: "engineFacts js \<Longrightarrow> toUpperCase js s = [] \<Longrightarrow> s = []"
  by (simp add: engineFacts_def)

lemma engineFacts_header: "engineFacts js \<Longrightarrow> h \<in> set ORDERS_HEADER \<Longrightarrow> toUpperCase js h = h"
  by (simp add: engineFacts_def)

lemma length_getValues: "length (getValues sh r c h w) = h"
  by (simp add: getValues_def)

lemma nth_getValues:
  "i < h \<Longrightarrow> getValues sh r c h w ! i = map (cellAt (cells sh) (r + i)) [c ..< c + w]"
  by (simp add: getValues_def)

lemma cellAt_Nil: "cellAt [] r c = Str []"
  by (auto simp: cellAt_def)

lemma cellAt_Cons_Suc: "1 \<le> r \<Longrightarrow> cellAt (x # g) (Suc r) c = cellAt g r c"
  by (simp add: cellAt_def)

lemma cellAt_zero: "cellAt g 0 c = Str []"
  by (simp add: cellAt_def)

lemma blankRow_cellAt: "blankRow x \<longleftrightarrow> (\<forall>c. cellAt (x # g) 1 c = Str [])"
proof
  assume "blankRow x"
  then show "\<forall>c. cellAt (x # g) 1 c = Str []"
    by (auto simp: blankRow_def cellAt_def list_all_length)
next
  assume a: "\<forall>c. cellAt (x # g) 1 c = Str []"
  show "blankRow x"
    unfolding blankRow_def list_all_length
  proof (intro allI impI)
    fix i assume "i < length x"
    with a[rule_format, of "Suc i"] show "x ! i = Str []"
      by (simp add: cellAt_def)
  qed
qed

lemma cellAt_beyond_last: "lastRowOf g < r \<Longrightarrow> cellAt g r c = Str []"
proof (induction g arbitrary: r)
  case Nil
  then show ?case by (simp add: cellAt_Nil)
next
  case (Cons x g)
  show ?case
  proof (cases r)
    case 0
    then show ?thesis by (simp add: cellAt_zero)
  next
    case (Suc r')
    show ?thesis
    proof (cases "r' = 0")
      case True
      with Cons.prems Suc have "lastRowOf g = 0" "blankRow x"
        by (auto simp: Let_def split: if_splits)
      then show ?thesis using True Suc blankRow_cellAt[of x g] by simp
    next
      case False
      with Cons.prems Suc have "lastRowOf g < r'"
        by (auto simp: Let_def split: if_splits)
      then have "cellAt g r' c = Str []" by (rule Cons.IH)
      then show ?thesis using False Suc by (simp add: cellAt_Cons_Suc)
    qed
  qed
qed

lemma lastRowOf_nonblank: "0 < lastRowOf g \<Longrightarrow> \<exists>c. cellAt g (lastRowOf g) c \<noteq> Str []"
proof (induction g)
  case Nil
  then show ?case by simp
next
  case (Cons x g)
  show ?case
  proof (cases "lastRowOf g = 0")
    case True
    with Cons.prems have nb: "\<not> blankRow x" and l: "lastRowOf (x # g) = 1"
      by (auto simp: Let_def split: if_splits)
    from nb blankRow_cellAt[of x g] obtain c where "cellAt (x # g) 1 c \<noteq> Str []" by blast
    then show ?thesis using l by auto
  next
    case False
    then have l: "lastRowOf (x # g) = Suc (lastRowOf g)" by (simp add: Let_def)
    from False Cons.IH obtain c where "cellAt g (lastRowOf g) c \<noteq> Str []" by auto
    then show ?thesis using l False by (auto simp: cellAt_Cons_Suc)
  qed
qed

lemma lastRowOf_ge: "cellAt g r c \<noteq> Str [] \<Longrightarrow> r \<le> lastRowOf g"
  using cellAt_beyond_last[of g r c] by (cases "lastRowOf g < r") auto

lemma length_writeCells: "length (writeCells col vals row) = max (length row) (col - 1 + length vals)"
  by (auto simp: writeCells_def padTo_def Let_def)

lemma nth_writeCells:
  assumes "1 \<le> col"
  shows "(if 1 \<le> c \<and> c \<le> length (writeCells col vals row) then writeCells col vals row ! (c - 1) else Str []) =
         (if col \<le> c \<and> c < col + length vals then vals ! (c - col)
          else if 1 \<le> c \<and> c \<le> length row then row ! (c - 1) else Str [])"
proof -
  let ?row' = "padTo (col - 1 + length vals) (Str []) row"
  have len: "length ?row' = max (length row) (col - 1 + length vals)"
    by (auto simp: padTo_def)
  have pad: "\<And>i. i < length ?row' \<Longrightarrow> ?row' ! i = (if i < length row then row ! i else Str [])"
    by (auto simp: padTo_def nth_append)
  have w: "writeCells col vals row = take (col - 1) ?row' @ vals @ drop (col - 1 + length vals) ?row'"
    by (simp add: writeCells_def Let_def)
  have lw: "length (writeCells col vals row) = max (length row) (col - 1 + length vals)"
    by (auto simp: writeCells_def padTo_def Let_def)
  consider (before) "c < col" | (inside) "col \<le> c" "c < col + length vals" | (after) "col + length vals \<le> c"
    by linarith
  then show ?thesis
  proof cases
    case before
    show ?thesis
    proof (cases "1 \<le> c")
      case True
      have "c - 1 < col - 1" using before True by simp
      moreover have "col - 1 \<le> length ?row'" using len by simp
      ultimately have "writeCells col vals row ! (c - 1) = ?row' ! (c - 1)"
        unfolding w by (simp add: nth_append)
      moreover have "c - 1 < length ?row'" using before True len by simp
      ultimately have "writeCells col vals row ! (c - 1) = (if c - 1 < length row then row ! (c - 1) else Str [])"
        using pad by simp
      moreover have "c \<le> length (writeCells col vals row)" using lw before by simp
      ultimately show ?thesis using before True by auto
    next
      case False
      then show ?thesis using before by simp
    qed
  next
    case inside
    have l1: "length (take (col - 1) ?row') = col - 1" using len by simp
    have i: "c - 1 = length (take (col - 1) ?row') + (c - col)" using l1 inside assms by arith
    have "writeCells col vals row ! (c - 1) = (vals @ drop (col - 1 + length vals) ?row') ! (c - col)"
      unfolding w i by (rule nth_append_length_plus)
    also have "\<dots> = vals ! (c - col)"
    proof -
      have "c - col < length vals" using inside by arith
      then show ?thesis by (simp add: nth_append)
    qed
    finally have "writeCells col vals row ! (c - 1) = vals ! (c - col)" .
    moreover have "1 \<le> c" "c \<le> length (writeCells col vals row)" using lw inside assms by auto
    ultimately show ?thesis using inside by simp
  next
    case after
    have c1: "1 \<le> c" using after assms by simp
    show ?thesis
    proof (cases "c \<le> length row")
      case True
      have l1: "length (take (col - 1) ?row') = col - 1" using len by simp
      define k where "k = c - col - length vals"
      have i: "c - 1 = length (take (col - 1) ?row') + (length vals + k)"
        using l1 after assms by (simp add: k_def)
      have "writeCells col vals row ! (c - 1) = (vals @ drop (col - 1 + length vals) ?row') ! (length vals + k)"
        unfolding w i by (rule nth_append_length_plus)
      also have "\<dots> = drop (col - 1 + length vals) ?row' ! k"
        by (rule nth_append_length_plus)
      also have "\<dots> = ?row' ! (col - 1 + length vals + k)"
        using after assms True len by (simp add: k_def)
      also have "col - 1 + length vals + k = c - 1"
        using after assms by (simp add: k_def)
      also have "?row' ! (c - 1) = row ! (c - 1)"
      proof -
        have "c - 1 < length row" using True c1 by arith
        then show ?thesis by (simp add: padTo_def nth_append)
      qed
      finally have "writeCells col vals row ! (c - 1) = row ! (c - 1)" .
      moreover have "c \<le> length (writeCells col vals row)" using lw True by simp
      ultimately show ?thesis using after c1 True by simp
    next
      case False
      then have "\<not> c \<le> length (writeCells col vals row)" using lw after assms by simp
      then show ?thesis using after False by simp
    qed
  qed
qed

lemma cellAt_setRowValues:
  assumes "1 \<le> row" and "1 \<le> col"
  shows "cellAt (cells (setRowValues sh row col vals)) r c =
         (if r = row \<and> col \<le> c \<and> c < col + length vals then vals ! (c - col)
          else cellAt (cells sh) r c)"
proof -
  let ?g = "padTo row [] (cells sh)"
  let ?g' = "?g[row - 1 := writeCells col vals (?g ! (row - 1))]"
  have cg: "cells (setRowValues sh row col vals) = ?g'"
    by (simp add: setRowValues_def Let_def)
  have lg: "length ?g = max (length (cells sh)) row"
    by (auto simp: padTo_def)
  have pad: "\<And>r c. cellAt ?g r c = cellAt (cells sh) r c"
    by (auto simp: cellAt_def padTo_def nth_append)
  show ?thesis
  proof (cases "r = row")
    case True
    have rl: "row - 1 < length ?g" using assms lg by simp
    have "cellAt ?g' row c =
          (if 1 \<le> c \<and> c \<le> length (writeCells col vals (?g ! (row - 1)))
           then writeCells col vals (?g ! (row - 1)) ! (c - 1) else Str [])"
      unfolding cellAt_def using assms rl lg by simp
    also have "\<dots> = (if col \<le> c \<and> c < col + length vals then vals ! (c - col)
          else if 1 \<le> c \<and> c \<le> length (?g ! (row - 1)) then ?g ! (row - 1) ! (c - 1) else Str [])"
      using assms(2) by (rule nth_writeCells)
    also have "(if 1 \<le> c \<and> c \<le> length (?g ! (row - 1)) then ?g ! (row - 1) ! (c - 1) else Str []) = cellAt ?g row c"
      unfolding cellAt_def using assms rl lg by simp
    finally show ?thesis using True cg pad by simp
  next
    case False
    have "cellAt ?g' r c = cellAt ?g r c"
      unfolding cellAt_def using False assms by (cases "r - 1 = row - 1") auto
    then show ?thesis using False cg pad by simp
  qed
qed

lemma getValues_row:
  "getValues sh r c (Suc 0) w ! 0 = map (cellAt (cells sh) r) [c ..< c + w]"
  using nth_getValues[of 0 "Suc 0" sh r c w] by simp

section \<open>The two loops of the resolver\<close>

lemma defaultLoop_activeDefault:
  "defaultLoop js d rows = (case activeDefault js rows of None \<Rightarrow> d | Some t \<Rightarrow> Some t)"
proof (induction rows arbitrary: d)
  case Nil
  show ?case by (simp add: activeDefault_def)
next
  case (Cons row rows)
  show ?case
  proof (cases "filter (flaggedDefault js) rows")
    case Nil
    then show ?thesis
      using Cons.IH by (simp add: activeDefault_def flaggedDefault_def)
  next
    case (Cons f fs)
    then show ?thesis
      using Cons.IH by (simp add: activeDefault_def flaggedDefault_def)
  qed
qed

lemma activeDefault_truthy: "activeDefault js rows = Some t \<Longrightarrow> truthy t"
proof -
  assume a: "activeDefault js rows = Some t"
  then obtain f fs where fs: "filter (flaggedDefault js) rows = f # fs" and t: "t = last (f # fs) ! 1"
    by (auto simp: activeDefault_def split: list.splits)
  have "last (f # fs) \<in> set (filter (flaggedDefault js) rows)" unfolding fs by (rule last_in_set) simp
  then have "flaggedDefault js (last (f # fs))" by simp
  then show ?thesis using t by (simp add: flaggedDefault_def)
qed

lemma matchLoop_no_match:
  "\<forall>row \<in> set rows. \<not> ruleMatches js custm row \<Longrightarrow>
   matchLoop js custm d rows = \<lparr>name = jsString js (firstTruthy (Str []) d), isDefault = True\<rparr>"
  by (induction rows) (auto simp: ruleMatches_def)

lemma matchLoop_first_match:
  "\<forall>row \<in> set pre. \<not> ruleMatches js custm row \<Longrightarrow> ruleMatches js custm row \<Longrightarrow>
   matchLoop js custm d (pre @ row # post) = \<lparr>name = jsString js (firstTruthy (row ! 1) d), isDefault = False\<rparr>"
  by (induction pre) (auto simp: ruleMatches_def)

lemma firstTruthy_activeDefault:
  "jsString js (firstTruthy target (activeDefault js rows)) =
     (if truthy target then jsString js target
      else case activeDefault js rows of Some t \<Rightarrow> jsString js t | None \<Rightarrow> ''ORDERS'')"
  using activeDefault_truthy[of js rows]
  by (auto simp: firstTruthy_def split: option.splits)

lemma lookupDestination_rows:
  assumes "getSheetByName ss CONFIG_SHEET = Some cfg" and "2 \<le> getLastRow (ss ! cfg)"
  shows "lookupDestination js ss custm =
         Some (matchLoop js custm (activeDefault js (configRows (ss ! cfg))) (configRows (ss ! cfg)))"
  using assms
  by (simp add: lookupDestination_def Let_def configRows_def defaultLoop_activeDefault split: option.splits)

section \<open>The backward scan\<close>

lemma hasDataIn_iff:
  "hasDataIn sh N r \<longleftrightarrow> (\<exists>c. 1 \<le> c \<and> c \<le> N \<and> cellAt (cells sh) r c \<noteq> Str [])"
  by (auto simp: hasDataIn_def list_ex_iff)

lemma scanBack_ge: "2 \<le> scanBack values n"
  by (induction n) auto

lemma scanBack_le: "scanBack values n \<le> n + 2"
  by (induction n) auto

lemma scanBack_data:
  "scanBack values n = 2 \<or> list_ex (\<lambda>v. v \<noteq> Str []) (values ! (scanBack values n - 3))"
  by (induction n) auto

lemma scanBack_blank_after:
  "scanBack values n - 2 \<le> i \<Longrightarrow> i < n \<Longrightarrow> \<not> list_ex (\<lambda>v. v \<noteq> Str []) (values ! i)"
proof (induction n)
  case 0
  then show ?case by simp
next
  case (Suc n)
  show ?case
  proof (cases "list_ex (\<lambda>v. v \<noteq> Str []) (values ! n)")
    case True
    then have "scanBack values (Suc n) = n + 3" by simp
    with Suc.prems show ?thesis by simp
  next
    case False
    then have s: "scanBack values (Suc n) = scanBack values n" by simp
    show ?thesis
    proof (cases "i = n")
      case True
      with False show ?thesis by simp
    next
      case False
      with Suc.prems s Suc.IH show ?thesis by simp
    qed
  qed
qed

lemma row_has_data:
  "i < h \<Longrightarrow> list_ex (\<lambda>v. v \<noteq> Str []) (getValues sh 2 1 h N ! i) \<longleftrightarrow> hasDataIn sh N (2 + i)"
proof -
  assume "i < h"
  then have "getValues sh 2 1 h N ! i = map (cellAt (cells sh) (2 + i)) [1 ..< 1 + N]"
    by (rule nth_getValues)
  then show ?thesis
    by (auto simp: hasDataIn_def list_ex_iff)
qed

section \<open>Headers and tabs\<close>

lemma ensureHeaders_cases:
  assumes "header \<noteq> []"
  shows "ensureHeaders js sh header =
           (if join ''|'' (map (\<lambda>c. toUpperCase js (jsString js (cellAt (cells sh) 1 c))) [1 ..< Suc (length header)])
                \<noteq> join ''|'' (map (toUpperCase js) header)
            then Inr (setRowValues sh 1 1 (map Str header)) else Inr sh)"
proof -
  have "getValues sh 1 1 1 (length header) ! 0 = map (cellAt (cells sh) 1) [1 ..< Suc (length header)]"
    using getValues_row[of sh 1 1 "length header"] by simp
  then show ?thesis
    using assms by (simp add: ensureHeaders_def Let_def o_def)
qed

lemma indexOfName_Some:
  "indexOfName n ss k = Some i \<Longrightarrow> k \<le> i \<and> i - k < length ss \<and> getName (ss ! (i - k)) = n"
proof (induction ss arbitrary: k)
  case Nil
  then show ?case by simp
next
  case (Cons s ss)
  show ?case
  proof (cases "getName s = n")
    case True
    with Cons.prems show ?thesis by simp
  next
    case False
    with Cons.prems have "indexOfName n ss (Suc k) = Some i" by simp
    from Cons.IH[OF this] have "Suc k \<le> i" "i - Suc k < length ss" "getName (ss ! (i - Suc k)) = n"
      by auto
    moreover from this have "i - k = Suc (i - Suc k)" by arith
    ultimately show ?thesis by simp
  qed
qed

lemma indexOfName_None: "indexOfName n ss k = None \<longleftrightarrow> n \<notin> getName ` set ss"
  by (induction ss arbitrary: k) auto

lemma getSheetByName_Some:
  "getSheetByName ss n = Some i \<Longrightarrow> i < length ss \<and> getName (ss ! i) = n"
  using indexOfName_Some[of n ss 0 i] by (simp add: getSheetByName_def)

lemma getSheetByName_None: "getSheetByName ss n = None \<longleftrightarrow> n \<notin> getName ` set ss"
  by (simp add: getSheetByName_def indexOfName_None)

lemma dropWhile_self: "xs = [] \<or> \<not> P (hd xs) \<Longrightarrow> dropWhile P xs = xs"
  by (cases xs) auto

lemma dropWhile_head: "dropWhile P xs = [] \<or> \<not> P (hd (dropWhile P xs))"
  using hd_dropWhile[of P xs] by blast

lemma asciiTrim_idem: "asciiTrim (asciiTrim s) = asciiTrim s"
proof -
  define t where "t = dropWhile asciiSpace s"
  define v where "v = dropWhile asciiSpace (rev t)"
  define u where "u = rev v"
  have ts: "asciiTrim s = u" by (simp add: asciiTrim_def t_def v_def u_def)
  have t0: "t = [] \<or> \<not> asciiSpace (hd t)" unfolding t_def by (rule dropWhile_head)
  have v0: "v = [] \<or> \<not> asciiSpace (hd v)" unfolding v_def by (rule dropWhile_head)
  define x where "x = rev (takeWhile asciiSpace (rev t))"
  have "rev t = takeWhile asciiSpace (rev t) @ v" by (simp add: v_def)
  then have "rev (rev t) = rev (takeWhile asciiSpace (rev t) @ v)" by simp
  then have "t = u @ x"
    unfolding u_def x_def by (simp only: rev_append rev_rev_ident)
  then have "u = [] \<or> (t \<noteq> [] \<and> hd u = hd t)" by (cases u) auto
  with t0 have "u = [] \<or> \<not> asciiSpace (hd u)" by auto
  then have "dropWhile asciiSpace u = u" by (rule dropWhile_self)
  moreover have "dropWhile asciiSpace v = v" using v0 by (rule dropWhile_self)
  ultimately have "asciiTrim u = u" by (simp add: asciiTrim_def u_def)
  then show ?thesis using ts by simp
qed

text \<open>The engine of the examples has the four facts.\<close>

lemma engineFacts_exEngine: "engineFacts exEngine"
proof -
  have "list_all (\<lambda>h. asciiUpper h = h) ORDERS_HEADER" by code_simp
  then have "\<forall>h \<in> set ORDERS_HEADER. asciiUpper h = h" by (simp add: list_all_iff)
  then have h: "\<forall>h \<in> set ORDERS_HEADER. toUpperCase exEngine h = h" by (simp add: exEngine_def)
  have t0: "trim exEngine [] = []" by (simp add: exEngine_def asciiTrim_def)
  have ti: "\<forall>s. trim exEngine (trim exEngine s) = trim exEngine s"
    by (simp add: exEngine_def asciiTrim_idem)
  have u: "\<forall>s. toUpperCase exEngine s = [] \<longleftrightarrow> s = []"
    by (simp add: exEngine_def asciiUpper_def)
  show ?thesis unfolding engineFacts_def using t0 ti u h by blast
qed

lemma nextRow_characterisation:
  assumes "1 \<le> N"
  shows "\<exists>r. nextRowByFirstNCols sh N = Inr r \<and> 2 \<le> r
             \<and> (\<forall>r'. r \<le> r' \<longrightarrow> \<not> hasDataIn sh N r')
             \<and> (r = 2 \<or> hasDataIn sh N (r - 1))"
proof (cases "getLastRow sh < 2")
  case True
  have "\<not> hasDataIn sh N r'" if "2 \<le> r'" for r'
    using that True cellAt_beyond_last[of "cells sh" r'] by (auto simp: hasDataIn_iff getLastRow_def)
  then show ?thesis
    using True by (simp add: nextRowByFirstNCols_def)
next
  case False
  define h where "h = getLastRow sh - 1"
  define vs where "vs = getValues sh 2 1 h N"
  define r where "r = scanBack vs h"
  have lv: "length vs = h" by (simp add: vs_def length_getValues)
  have res: "nextRowByFirstNCols sh N = Inr r"
    using False assms by (simp add: nextRowByFirstNCols_def Let_def r_def vs_def h_def length_getValues)
  have r2: "2 \<le> r" unfolding r_def by (rule scanBack_ge)
  have rle: "r \<le> h + 2" unfolding r_def by (rule scanBack_le)
  have after: "\<not> hasDataIn sh N r'" if "r \<le> r'" for r'
  proof (cases "r' \<le> getLastRow sh")
    case True
    define i where "i = r' - 2"
    have i: "i < h" "r - 2 \<le> i" "r' = 2 + i" using True that r2 False by (auto simp: i_def h_def)
    have "\<not> list_ex (\<lambda>v. v \<noteq> Str []) (vs ! i)"
      using i(2,1) unfolding r_def by (rule scanBack_blank_after)
    then show ?thesis using row_has_data[OF i(1), of sh N] i(3) by (simp add: vs_def)
  next
    case False
    then show ?thesis
      using cellAt_beyond_last[of "cells sh" r'] by (auto simp: hasDataIn_iff getLastRow_def)
  qed
  have before: "r = 2 \<or> hasDataIn sh N (r - 1)"
  proof (cases "r = 2")
    case True
    then show ?thesis by simp
  next
    case False
    then have d: "list_ex (\<lambda>v. v \<noteq> Str []) (vs ! (r - 3))"
      using scanBack_data[of vs h] by (simp add: r_def)
    have i: "r - 3 < h" "2 + (r - 3) = r - 1" using False r2 rle by auto
    show ?thesis using d row_has_data[OF i(1), of sh N] i(2) by (simp add: vs_def)
  qed
  show ?thesis using res r2 after before by blast
qed

lemma getOrCreateSheet_cases:
  assumes facts: "engineFacts js"
  shows "(list_ex (\<lambda>s. sameTabName js (getName s) nm) ss \<longrightarrow>
      (\<exists>i < length ss. getOrCreateSheet js ss nm = (ss, Some i) \<and> sameTabName js (getName (ss ! i)) nm))
   \<and> (\<not> list_ex (\<lambda>s. sameTabName js (getName s) nm) ss \<longrightarrow>
      getOrCreateSheet js ss nm = (ss @ [\<lparr>getName = trim js nm, cells = []\<rparr>], Some (length ss)))"
proof (cases "getSheetByName ss (trim js nm)")
  case (Some i)
  then have i: "i < length ss" "getName (ss ! i) = trim js nm" using getSheetByName_Some by auto
  then have m: "sameTabName js (getName (ss ! i)) nm" using facts by (simp add: sameTabName_def engineFacts_trim_idem)
  then have "list_ex (\<lambda>s. sameTabName js (getName s) nm) ss"
    using i(1) by (auto simp: list_ex_iff)
  moreover have "getOrCreateSheet js ss nm = (ss, Some i)"
    using Some by (simp add: getOrCreateSheet_def Let_def)
  ultimately show ?thesis using i(1) m by auto
next
  case None
  let ?P = "\<lambda>n. toUpperCase js (trim js n) = toUpperCase js (trim js nm)"
  show ?thesis
  proof (cases "find ?P (map getName ss)")
    case fNone: None
    then have "\<not> list_ex (\<lambda>s. sameTabName js (getName s) nm) ss"
      by (auto simp: find_None_iff list_ex_iff sameTabName_def)
    moreover have "getOrCreateSheet js ss nm = (ss @ [\<lparr>getName = trim js nm, cells = []\<rparr>], Some (length ss))"
      using None fNone by (simp add: getOrCreateSheet_def Let_def insertSheet_def)
    ultimately show ?thesis by simp
  next
    case (Some match)
    then have mem: "match \<in> getName ` set ss" and pm: "?P match"
      by (auto simp: find_Some_iff)
    have ne: "match \<noteq> []"
    proof
      assume e: "match = []"
      with pm have "toUpperCase js (trim js nm) = []"
        using engineFacts_trim_Nil[OF facts] engineFacts_upper_Nil[OF facts] by simp
      then have "trim js nm = []" using engineFacts_upper_Nil_only[OF facts] by simp
      with mem e have "trim js nm \<in> getName ` set ss" by simp
      with None show False by (simp add: getSheetByName_None)
    qed
    from mem obtain i where gi: "getSheetByName ss match = Some i"
      using getSheetByName_None[of ss match] by (cases "getSheetByName ss match") auto
    then have i: "i < length ss" "getName (ss ! i) = match" using getSheetByName_Some by auto
    have m: "sameTabName js (getName (ss ! i)) nm" using i(2) pm by (simp add: sameTabName_def)
    then have "list_ex (\<lambda>s. sameTabName js (getName s) nm) ss"
      using i(1) by (auto simp: list_ex_iff)
    moreover have "getOrCreateSheet js ss nm = (ss, Some i)"
      using None Some ne gi by (simp add: getOrCreateSheet_def Let_def)
    ultimately show ?thesis using i(1) m by auto
  qed
qed

section \<open>The separator of the header comparison\<close>

lemma takeWhile_to_sep: "c \<notin> set x \<Longrightarrow> takeWhile (\<lambda>a. a \<noteq> c) (x @ c # r) = x"
  by (induction x) auto

lemma split_at_sep:
  assumes "c \<notin> set x" and "c \<notin> set y" and "x @ c # r1 = y @ c # r2"
  shows "x = y \<and> r1 = r2"
proof -
  have "takeWhile (\<lambda>a. a \<noteq> c) (x @ c # r1) = x" using assms(1) by (rule takeWhile_to_sep)
  moreover have "takeWhile (\<lambda>a. a \<noteq> c) (y @ c # r2) = y" using assms(2) by (rule takeWhile_to_sep)
  ultimately have "x = y" using assms(3) by simp
  then show ?thesis using assms(3) by simp
qed

lemma count_list_append: "count_list (xs @ ys) c = count_list xs c + count_list ys c"
  by (induction xs) auto

lemma count_join:
  "count_list (join [c] (x # xs)) c = length xs + (count_list x c + sum_list (map (\<lambda>x. count_list x c) xs))"
proof (induction xs arbitrary: x)
  case Nil
  show ?case by simp
next
  case (Cons y ys)
  have "join [c] (x # y # ys) = x @ [c] @ join [c] (y # ys)" by simp
  then have "count_list (join [c] (x # y # ys)) c = count_list x c + 1 + count_list (join [c] (y # ys)) c"
    by (simp add: count_list_append)
  then show ?case using Cons.IH[of y] by simp
qed

lemma count_zero: "count_list x c = 0 \<longleftrightarrow> c \<notin> set x"
  by (induction x) auto

lemma join_free_inj:
  "length xs = length ys \<Longrightarrow> \<forall>x \<in> set xs. c \<notin> set x \<Longrightarrow> \<forall>y \<in> set ys. c \<notin> set y \<Longrightarrow>
   join [c] xs = join [c] ys \<Longrightarrow> xs = ys"
proof (induction xs ys rule: list_induct2)
  case Nil
  then show ?case by simp
next
  case (Cons x xs y ys)
  show ?case
  proof (cases xs)
    case Nil
    with Cons show ?thesis by simp
  next
    case xs: (Cons x' xs')
    with Cons.hyps obtain y' ys' where ys: "ys = y' # ys'" by (cases ys) auto
    from Cons.prems(3) have e: "x @ c # join [c] xs = y @ c # join [c] ys"
      by (simp add: xs ys)
    have cx: "c \<notin> set x" and cy: "c \<notin> set y" using Cons.prems by auto
    have xy: "x = y" and j: "join [c] xs = join [c] ys"
      using split_at_sep[OF cx cy e] by simp_all
    have "xs = ys" using Cons.prems(1,2) j by (intro Cons.IH) auto
    with xy show ?thesis by simp
  qed
qed

lemma sum_count_zero: "sum_list (map (\<lambda>x. count_list x c) xs) = 0 \<longleftrightarrow> (\<forall>x \<in> set xs. c \<notin> set x)"
  by (induction xs) (auto simp: count_zero)

lemma join_inj:
  assumes "length xs = length ys" and "\<forall>y \<in> set ys. c \<notin> set y" and "join [c] xs = join [c] ys"
  shows "xs = ys"
proof (cases xs)
  case Nil
  with assms(1) show ?thesis by simp
next
  case (Cons x xs')
  with assms(1) obtain y ys' where ys: "ys = y # ys'" by (cases ys) auto
  have l: "length xs' = length ys'" using assms(1) Cons ys by simp
  have "count_list y c + sum_list (map (\<lambda>y. count_list y c) ys') = 0"
    using assms(2) ys sum_count_zero[of c ys'] by (simp add: count_zero)
  then have "count_list (join [c] ys) c = length ys'" unfolding ys count_join by simp
  then have "count_list (join [c] xs) c = length xs'" using assms(3) l by simp
  then have "count_list x c + sum_list (map (\<lambda>x. count_list x c) xs') = 0"
    unfolding Cons count_join by simp
  then have "\<forall>x \<in> set xs. c \<notin> set x"
    using sum_count_zero[of c xs'] Cons by (simp add: count_zero)
  then show ?thesis using assms join_free_inj[of xs ys c] by blast
qed

section \<open>What a routing leaves in the store\<close>

lemma headerMatches_iff:
  "headerMatches js sh header \<longleftrightarrow>
   (\<forall>i < length header. toUpperCase js (jsString js (cellAt (cells sh) 1 (Suc i))) = toUpperCase js (header ! i))"
proof -
  have n: "[1 ..< Suc (length header)] ! i = Suc i" if "i < length header" for i
    using that nth_upt[of 1 i "Suc (length header)"] by simp
  have l: "length [1 ..< Suc (length header)] = length header" by (simp del: upt_Suc)
  show ?thesis
    unfolding headerMatches_def list_eq_iff_nth_eq length_map l
    using n by (auto simp del: upt_Suc)
qed

lemma headerMatches_frame:
  "(\<And>c. cellAt (cells sh') 1 c = cellAt (cells sh) 1 c) \<Longrightarrow> headerMatches js sh' header = headerMatches js sh header"
  by (simp add: headerMatches_iff)

lemma headerMatches_written: "headerMatches js (setRowValues sh 1 1 (map Str header)) header"
proof -
  let ?w = "setRowValues sh 1 1 (map Str header)"
  have c: "cellAt (cells ?w) (r::nat) (c::nat) =
        (if r = 1 \<and> 1 \<le> c \<and> c < 1 + length (map Str header) then map Str header ! (c - 1)
         else cellAt (cells sh) r c)" for r c :: nat
    by (rule cellAt_setRowValues) simp_all
  show ?thesis
    unfolding headerMatches_iff c by simp
qed

lemma ensureHeaders_establishes:
  assumes "header \<noteq> []" and "\<forall>h \<in> set header. CHR ''|'' \<notin> set (toUpperCase js h)"
    and "ensureHeaders js sh header = Inr sh'"
  shows "headerMatches js sh' header"
proof (cases "join ''|'' (map (\<lambda>c. toUpperCase js (jsString js (cellAt (cells sh) 1 c))) [1 ..< Suc (length header)])
                \<noteq> join ''|'' (map (toUpperCase js) header)")
  case True
  then have "sh' = setRowValues sh 1 1 (map Str header)"
    using assms(3) ensureHeaders_cases[OF assms(1), of js sh] by (simp del: upt_Suc)
  then show ?thesis using headerMatches_written[of js sh header] by simp
next
  case False
  then have s: "sh' = sh"
    using assms(3) ensureHeaders_cases[OF assms(1), of js sh] by (simp del: upt_Suc)
  have "map (\<lambda>c. toUpperCase js (jsString js (cellAt (cells sh) 1 c))) [1 ..< Suc (length header)] = map (toUpperCase js) header"
  proof (rule join_inj[of _ _ "CHR ''|''"])
    show "length (map (\<lambda>c. toUpperCase js (jsString js (cellAt (cells sh) 1 c))) [1 ..< Suc (length header)]) =
          length (map (toUpperCase js) header)" by (simp del: upt_Suc)
    show "\<forall>y \<in> set (map (toUpperCase js) header). CHR ''|'' \<notin> set y" using assms(2) by simp
    show "join ''|'' (map (\<lambda>c. toUpperCase js (jsString js (cellAt (cells sh) 1 c))) [1 ..< Suc (length header)]) =
          join ''|'' (map (toUpperCase js) header)" using False by (simp del: upt_Suc)
  qed
  then show ?thesis using s by (simp add: headerMatches_def)
qed

lemma headers_sep_free:
  assumes "engineFacts js"
  shows "\<forall>h \<in> set (if b then ORDERS_HEADER else ACCOUNT_HEADER). CHR ''|'' \<notin> set (toUpperCase js h)"
proof -
  have "list_all (\<lambda>h. CHR ''|'' \<notin> set h) ORDERS_HEADER" by code_simp
  then have o: "\<forall>h \<in> set ORDERS_HEADER. CHR ''|'' \<notin> set h" by (simp add: list_all_iff)
  have sub: "set (if b then ORDERS_HEADER else ACCOUNT_HEADER) \<subseteq> set ORDERS_HEADER"
    by (auto simp: ORDERS_HEADER_def ACCOUNT_HEADER_def)
  show ?thesis
  proof
    fix h assume "h \<in> set (if b then ORDERS_HEADER else ACCOUNT_HEADER)"
    then have h: "h \<in> set ORDERS_HEADER" using sub by blast
    with assms have "toUpperCase js h = h" by (rule engineFacts_header)
    then show "CHR ''|'' \<notin> set (toUpperCase js h)" using o h by simp
  qed
qed

lemma headerMatches_first_cell:
  assumes "engineFacts js" and "headerMatches js sh header" and "header \<noteq> []" and "hd header \<noteq> []"
  shows "cellAt (cells sh) 1 1 \<noteq> Str []"
proof
  assume b: "cellAt (cells sh) 1 1 = Str []"
  from assms(3) obtain h hs where h: "header = h # hs" by (cases header) auto
  from assms(2) have "toUpperCase js (jsString js (cellAt (cells sh) 1 (Suc 0))) = toUpperCase js (header ! 0)"
    unfolding headerMatches_iff using h by auto
  with b have "toUpperCase js [] = toUpperCase js h" by (simp add: h)
  then have "toUpperCase js h = []" using engineFacts_upper_Nil[OF assms(1)] by simp
  then have "h = []" using engineFacts_upper_Nil_only[OF assms(1)] by simp
  with assms(4) h show False by simp
qed

lemma getLastRow_ge: "cellAt (cells sh) r c \<noteq> Str [] \<Longrightarrow> r \<le> getLastRow sh"
  unfolding getLastRow_def by (rule lastRowOf_ge)

lemma getOrCreateSheet_handle:
  assumes "getOrCreateSheet js ss nm = (ss1, Some t)"
  shows "t < length ss1 \<and> (ss1 = ss \<or> (ss1 = ss @ [\<lparr>getName = trim js nm, cells = []\<rparr>] \<and> t = length ss))"
proof (cases "getSheetByName ss (trim js nm)")
  case (Some i)
  then have "getOrCreateSheet js ss nm = (ss, Some i)" by (simp add: getOrCreateSheet_def Let_def)
  then show ?thesis using assms getSheetByName_Some[OF Some] by simp
next
  case None
  show ?thesis
  proof (cases "find (\<lambda>n. toUpperCase js (trim js n) = toUpperCase js (trim js nm)) (map getName ss)")
    case fNone: None
    then have "getOrCreateSheet js ss nm = (ss @ [\<lparr>getName = trim js nm, cells = []\<rparr>], Some (length ss))"
      using None by (simp add: getOrCreateSheet_def Let_def insertSheet_def)
    then show ?thesis using assms by auto
  next
    case (Some match)
    show ?thesis
    proof (cases "match = []")
      case True
      then have "getOrCreateSheet js ss nm = (ss @ [\<lparr>getName = trim js nm, cells = []\<rparr>], Some (length ss))"
        using None Some by (simp add: getOrCreateSheet_def Let_def insertSheet_def)
      then show ?thesis using assms by auto
    next
      case False
      then have "getOrCreateSheet js ss nm = (ss, getSheetByName ss match)"
        using None Some by (simp add: getOrCreateSheet_def Let_def)
      then have "getSheetByName ss match = Some t" "ss1 = ss" using assms by auto
      then show ?thesis using getSheetByName_Some by blast
    qed
  qed
qed

lemma routeBody_changed:
  assumes "routeBody js now r ss = Inr ss'" and "ss' \<noteq> ss"
  obtains d dst ss1 t hdr nxt where
    "getSheetByName ss DROP_OFF_SHEET = Some d"
    "1 \<le> r"
    "list_all (\<lambda>v. v \<noteq> Str []) (getValues (ss ! d) r 1 1 6 ! 0)"
    "\<not> rowWasLogged js ss r"
    "lookupDestination js ss (getValues (ss ! d) r 1 1 6 ! 0 ! 2) = Some dst"
    "name dst \<noteq> []"
    "getOrCreateSheet js ss (name dst) = (ss1, Some t)"
    "ensureHeaders js (ss1 ! t)
       (if toUpperCase js (trim js (name dst)) = ''ORDERS'' \<or> isDefault dst then ORDERS_HEADER else ACCOUNT_HEADER) = Inr hdr"
    "nextRowByFirstNCols (ss1[t := hdr] ! t) 6 = Inr nxt"
    "ss' = appendLog ((ss1[t := hdr])[t := setRowValues (ss1[t := hdr] ! t) nxt 1 (getValues (ss ! d) r 1 1 6 ! 0)])
             (buildKey js (getValues (ss ! d) r 1 1 6 ! 0)) (name dst) r now"
  using assms
  unfolding routeBody_def Let_def
  by (auto split: option.splits if_splits sum.splits prod.splits)

lemma appendLog_existing:
  "getSheetByName ss LOG_SHEET = Some l \<Longrightarrow>
   appendLog ss key dn r now = ss[l := appendRow (ss ! l) [Str key, now, Str dn, Num (of_nat r)]]"
  by (simp add: appendLog_def)

lemma appendLog_created:
  "getSheetByName ss LOG_SHEET = None \<Longrightarrow>
   appendLog ss key dn r now =
     ss @ [appendRow (setRowValues \<lparr>getName = LOG_SHEET, cells = []\<rparr> 1 1
                        [Str ''KEY'', Str ''WHEN'', Str ''DEST'', Str ''ROW''])
                     [Str key, now, Str dn, Num (of_nat r)]]"
  by (simp add: appendLog_def insertSheet_def Let_def)

lemma cellAt_appendRow:
  "cellAt (cells (appendRow sh vals)) r c =
     (if r = getLastRow sh + 1 \<and> 1 \<le> c \<and> c < 1 + length vals then vals ! (c - 1)
      else cellAt (cells sh) r c)"
  unfolding appendRow_def by (rule cellAt_setRowValues) simp_all

lemma appendLog_keeps_row1:
  assumes "t < length ss"
    and "getSheetByName ss LOG_SHEET = Some t \<longrightarrow> 1 \<le> getLastRow (ss ! t)"
  shows "cellAt (cells (appendLog ss key dn r now ! t)) 1 c = cellAt (cells (ss ! t)) 1 c"
proof (cases "getSheetByName ss LOG_SHEET")
  case None
  then show ?thesis using assms(1) by (simp add: appendLog_created nth_append)
next
  case (Some l)
  show ?thesis
  proof (cases "l = t")
    case True
    with Some assms(2) have "1 \<le> getLastRow (ss ! t)" by simp
    then show ?thesis
      using Some True assms(1) by (simp add: appendLog_existing cellAt_appendRow)
  next
    case False
    then show ?thesis using Some by (simp add: appendLog_existing)
  qed
qed

lemma header_first_nonblank:
  "hd (if b then ORDERS_HEADER else ACCOUNT_HEADER) \<noteq> []"
  "(if b then ORDERS_HEADER else ACCOUNT_HEADER) \<noteq> []"
  by (simp_all add: ORDERS_HEADER_def ACCOUNT_HEADER_def)

lemma staged_custm: "getValues sh r 1 1 6 ! 0 ! 2 = cellAt (cells sh) r 3"
proof -
  have "getValues sh r 1 1 6 ! 0 = map (cellAt (cells sh) r) [1 ..< 7]"
    using getValues_row[of sh r 1 6] by simp
  moreover have "[1 ..< 7] ! 2 = (3::nat)" using nth_upt[of 1 2 7] by simp
  ultimately show ?thesis by (simp add: numeral_3_eq_3 del: upt_Suc)
qed

lemma indexOfName_names:
  "map getName a = map getName b \<Longrightarrow> indexOfName n a k = indexOfName n b k"
proof (induction a arbitrary: b k)
  case Nil
  then show ?case by simp
next
  case (Cons x a)
  then obtain y b' where b: "b = y # b'" by (cases b) auto
  with Cons.prems have "getName x = getName y" "map getName a = map getName b'" by auto
  then show ?case using Cons.IH[of b' "Suc k"] b by simp
qed

lemma getSheetByName_names:
  "map getName a = map getName b \<Longrightarrow> getSheetByName a n = getSheetByName b n"
  unfolding getSheetByName_def by (rule indexOfName_names)

lemma indexOfName_append:
  "indexOfName n (a @ b) k = (case indexOfName n a k of Some i \<Rightarrow> Some i | None \<Rightarrow> indexOfName n b (k + length a))"
  by (induction a arbitrary: k) (auto split: option.splits)

lemma getSheetByName_append:
  "getSheetByName (a @ [s]) n =
     (case getSheetByName a n of Some i \<Rightarrow> Some i
      | None \<Rightarrow> if getName s = n then Some (length a) else None)"
  by (simp add: getSheetByName_def indexOfName_append split: option.splits)

lemma getName_setRowValues: "getName (setRowValues sh r c vals) = getName sh"
  by (simp add: setRowValues_def Let_def)

lemma getName_appendRow: "getName (appendRow sh vals) = getName sh"
  by (simp add: appendRow_def getName_setRowValues)

lemma getName_ensureHeaders: "ensureHeaders js sh header = Inr sh' \<Longrightarrow> getName sh' = getName sh"
  by (auto simp: ensureHeaders_def Let_def getName_setRowValues split: if_splits)

lemma names_update:
  assumes "getName s = getName (ss ! t)"
  shows "map getName (ss[t := s]) = map getName ss"
proof (cases "t < length ss")
  case True
  have "map getName (ss[t := s]) = (map getName ss)[t := map getName ss ! t]"
    using True assms by (simp add: map_update)
  then show ?thesis by (simp only: list_update_id)
next
  case False
  then have "length ss \<le> t" by simp
  then have "ss[t := s] = ss" by (rule list_update_beyond)
  then show ?thesis by simp
qed

lemma getLastRow_le:
  assumes "\<And>r c. k < r \<Longrightarrow> cellAt (cells sh) r c = Str []"
  shows "getLastRow sh \<le> k"
proof (rule ccontr)
  assume "\<not> getLastRow sh \<le> k"
  then have k: "k < getLastRow sh" by simp
  then have "0 < lastRowOf (cells sh)" by (simp add: getLastRow_def)
  then obtain c where "cellAt (cells sh) (lastRowOf (cells sh)) c \<noteq> Str []"
    using lastRowOf_nonblank by blast
  then show False using assms[of "getLastRow sh" c] k by (simp add: getLastRow_def)
qed

lemma getLastRow_appendRow:
  assumes "vals \<noteq> []" and "last vals \<noteq> Str []"
  shows "getLastRow (appendRow sh vals) = getLastRow sh + 1"
proof (rule antisym)
  show "getLastRow (appendRow sh vals) \<le> getLastRow sh + 1"
  proof (rule getLastRow_le)
    fix r c assume "getLastRow sh + 1 < r"
    then show "cellAt (cells (appendRow sh vals)) r c = Str []"
      using cellAt_beyond_last[of "cells sh" r c] by (simp add: cellAt_appendRow getLastRow_def)
  qed
next
  have "cellAt (cells (appendRow sh vals)) (getLastRow sh + 1) (length vals) = vals ! (length vals - 1)"
    using assms(1) by (simp add: cellAt_appendRow Suc_le_eq)
  also have "\<dots> = last vals" using assms(1) by (simp add: last_conv_nth)
  finally have "cellAt (cells (appendRow sh vals)) (getLastRow sh + 1) (length vals) \<noteq> Str []"
    using assms(2) by simp
  then show "getLastRow sh + 1 \<le> getLastRow (appendRow sh vals)" by (rule getLastRow_ge)
qed

lemma ledger_column_after_append:
  assumes "1 \<le> getLastRow sh"
  shows "2 \<le> getLastRow (appendRow sh [a, b, c, Num (of_nat r)])
       \<and> list_ex (\<lambda>v. jsNumber js v = Some (of_nat r))
            (concat (getValues (appendRow sh [a, b, c, Num (of_nat r)]) 2 4
                       (getLastRow (appendRow sh [a, b, c, Num (of_nat r)]) - 1) 1))"
proof -
  let ?sh' = "appendRow sh [a, b, c, Num (of_nat r)]"
  let ?k = "getLastRow sh + 1"
  have k: "getLastRow ?sh' = ?k" by (rule getLastRow_appendRow) simp_all
  have c4: "cellAt (cells ?sh') ?k 4 = Num (of_nat r)" by (simp add: cellAt_appendRow)
  define vs where "vs = getValues ?sh' 2 4 (?k - 1) 1"
  have i: "?k - 2 < ?k - 1" using assms by simp
  have "vs ! (?k - 2) = map (cellAt (cells ?sh') (2 + (?k - 2))) [4 ..< 4 + 1]"
    unfolding vs_def using i by (rule nth_getValues)
  also have "2 + (?k - 2) = ?k" using assms by simp
  finally have "vs ! (?k - 2) = [Num (of_nat r)]" using c4 by simp
  moreover have "?k - 2 < length vs" using i by (simp add: vs_def length_getValues)
  ultimately have "[Num (of_nat r)] \<in> set vs"
    by (metis nth_mem)
  then have "Num (of_nat r) \<in> set (concat vs)" by force
  then have "list_ex (\<lambda>v. jsNumber js v = Some (of_nat r)) (concat vs)"
    by (force simp: list_ex_iff)
  then have "list_ex (\<lambda>v. jsNumber js v = Some (of_nat r)) (concat (getValues ?sh' 2 4 (getLastRow ?sh' - 1) 1))"
    unfolding vs_def k .
  then show ?thesis using k assms by simp
qed

lemma rowWasLogged_iff:
  "getSheetByName ss LOG_SHEET = Some l \<Longrightarrow>
   rowWasLogged js ss r \<longleftrightarrow>
     (2 \<le> getLastRow (ss ! l)
      \<and> list_ex (\<lambda>v. jsNumber js v = Some (of_nat r)) (concat (getValues (ss ! l) 2 4 (getLastRow (ss ! l) - 1) 1)))"
  by (auto simp: rowWasLogged_def Let_def)

lemma rowWasLogged_after_appendLog:
  assumes "\<And>l. getSheetByName ss LOG_SHEET = Some l \<Longrightarrow> 1 \<le> getLastRow (ss ! l)"
  shows "rowWasLogged js (appendLog ss key dn r now) r"
proof (cases "getSheetByName ss LOG_SHEET")
  case None
  let ?h = "setRowValues \<lparr>getName = LOG_SHEET, cells = []\<rparr> 1 1 [Str ''KEY'', Str ''WHEN'', Str ''DEST'', Str ''ROW'']"
  let ?new = "appendRow ?h [Str key, now, Str dn, Num (of_nat r)]"
  have a: "appendLog ss key dn r now = ss @ [?new]" using None by (rule appendLog_created)
  have n: "getName ?new = LOG_SHEET" by (simp add: getName_appendRow getName_setRowValues)
  have g: "getSheetByName (ss @ [?new]) LOG_SHEET = Some (length ss)"
    using None n by (simp add: getSheetByName_append)
  have "cellAt (cells ?h) 1 1 = Str ''KEY''" by (simp add: cellAt_setRowValues)
  then have "cellAt (cells ?h) 1 1 \<noteq> Str []" by simp
  then have "1 \<le> getLastRow ?h" by (rule getLastRow_ge)
  from ledger_column_after_append[OF this, of "Str key" now "Str dn" r]
  show ?thesis unfolding a rowWasLogged_iff[OF g] by (simp only: nth_append_length)
next
  case (Some l)
  let ?new = "appendRow (ss ! l) [Str key, now, Str dn, Num (of_nat r)]"
  have a: "appendLog ss key dn r now = ss[l := ?new]" using Some by (rule appendLog_existing)
  have l: "l < length ss" using getSheetByName_Some[OF Some] by simp
  have "map getName (ss[l := ?new]) = map getName ss"
    by (rule names_update) (simp add: getName_appendRow)
  from getSheetByName_names[OF this, of LOG_SHEET]
  have g: "getSheetByName (ss[l := ?new]) LOG_SHEET = Some l"
    using Some by simp
  from ledger_column_after_append[OF assms[OF Some], of "Str key" now "Str dn" r]
  show ?thesis unfolding a rowWasLogged_iff[OF g] using l by (simp only: nth_list_update_eq)
qed

lemma routeBody_logged:
  "rowWasLogged js ss r \<Longrightarrow> 1 \<le> r \<Longrightarrow> routeBody js now r ss = Inr ss"
  by (simp add: routeBody_def Let_def split: option.splits)

lemma routed_record_sheet:
  assumes facts: "engineFacts js"
    and e: "ensureHeaders js sh (if b then ORDERS_HEADER else ACCOUNT_HEADER) = Inr hdr"
    and n: "nextRowByFirstNCols hdr 6 = Inr nxt"
  shows "headerMatches js (setRowValues hdr nxt 1 vals) (if b then ORDERS_HEADER else ACCOUNT_HEADER)
       \<and> 1 \<le> getLastRow (setRowValues hdr nxt 1 vals)
       \<and> getName (setRowValues hdr nxt 1 vals) = getName sh"
proof -
  let ?H = "if b then ORDERS_HEADER else ACCOUNT_HEADER"
  let ?rec = "setRowValues hdr nxt 1 vals"
  have hne: "?H \<noteq> []" "hd ?H \<noteq> []" using header_first_nonblank by auto
  have sep: "\<forall>h \<in> set ?H. CHR ''|'' \<notin> set (toUpperCase js h)" using facts by (rule headers_sep_free)
  have hm: "headerMatches js hdr ?H" using hne(1) sep e by (rule ensureHeaders_establishes)
  have n2: "2 \<le> nxt" using nextRow_characterisation[of 6 hdr] n by auto
  have rec1: "cellAt (cells ?rec) 1 c = cellAt (cells hdr) 1 c" for c
    using n2 cellAt_setRowValues[of nxt 1 hdr vals 1 c] by simp
  have hmr: "headerMatches js ?rec ?H" using hm headerMatches_frame[of ?rec hdr js ?H] rec1 by simp
  have "cellAt (cells ?rec) 1 1 \<noteq> Str []" using facts hmr hne by (rule headerMatches_first_cell)
  then have "1 \<le> getLastRow ?rec" by (rule getLastRow_ge)
  moreover have "getName ?rec = getName sh"
    using getName_ensureHeaders[OF e] by (simp add: getName_setRowValues)
  ultimately show ?thesis using hmr by simp
qed

lemma routed_header:
  assumes facts: "engineFacts js"
    and r1: "routeBody js now r ss = Inr ss'" and r2: "ss' \<noteq> ss"
    and a3: "getSheetByName ss DROP_OFF_SHEET = Some d"
    and a4: "lookupDestination js ss (cellAt (cells (ss ! d)) r 3) = Some dst"
    and a5: "getOrCreateSheet js ss (name dst) = (ss1, Some t)"
  shows "headerMatches js (ss' ! t)
           (if toUpperCase js (trim js (name dst)) = ''ORDERS'' \<or> isDefault dst then ORDERS_HEADER else ACCOUNT_HEADER)"
proof -
  let ?H = "if toUpperCase js (trim js (name dst)) = ''ORDERS'' \<or> isDefault dst then ORDERS_HEADER else ACCOUNT_HEADER"
  let ?vals = "getValues (ss ! d) r 1 1 6 ! 0"
  from r1 r2 obtain d' dst' ss1' t' hdr nxt where
    o: "getSheetByName ss DROP_OFF_SHEET = Some d'"
       "lookupDestination js ss (getValues (ss ! d') r 1 1 6 ! 0 ! 2) = Some dst'"
       "getOrCreateSheet js ss (name dst') = (ss1', Some t')"
       "ensureHeaders js (ss1' ! t')
         (if toUpperCase js (trim js (name dst')) = ''ORDERS'' \<or> isDefault dst' then ORDERS_HEADER else ACCOUNT_HEADER) = Inr hdr"
       "nextRowByFirstNCols (ss1'[t' := hdr] ! t') 6 = Inr nxt"
       "ss' = appendLog ((ss1'[t' := hdr])[t' := setRowValues (ss1'[t' := hdr] ! t') nxt 1 (getValues (ss ! d') r 1 1 6 ! 0)])
             (buildKey js (getValues (ss ! d') r 1 1 6 ! 0)) (name dst') r now"
    by (rule routeBody_changed) blast
  have dd: "d' = d" using o(1) a3 by simp
  have ds: "dst' = dst" using o(2) a4 dd staged_custm[of "ss ! d" r] by simp
  have st: "ss1' = ss1" "t' = t" using o(3) a5 ds by simp_all
  note e = o(4)[unfolded ds st] and n = o(5)[unfolded st] and s = o(6)[unfolded dd ds st]
  have tl: "t < length ss1" using getOrCreateSheet_handle[OF a5] by simp
  have n': "nextRowByFirstNCols hdr 6 = Inr nxt" using n tl by simp
  let ?rec = "setRowValues hdr nxt 1 ?vals"
  from routed_record_sheet[OF facts e n', of ?vals]
  have hmr: "headerMatches js ?rec ?H" and lr: "1 \<le> getLastRow ?rec" by auto
  let ?ss3 = "(ss1[t := hdr])[t := ?rec]"
  have s3: "?ss3 ! t = ?rec" "t < length ?ss3" using tl by simp_all
  have "cellAt (cells (appendLog ?ss3 (buildKey js ?vals) (name dst) r now ! t)) 1 c = cellAt (cells ?rec) 1 c" for c
    using appendLog_keeps_row1[of t ?ss3] s3 lr by simp
  then have "headerMatches js (appendLog ?ss3 (buildKey js ?vals) (name dst) r now ! t) ?H = headerMatches js ?rec ?H"
    by (rule headerMatches_frame)
  then show ?thesis using hmr s tl by simp
qed

lemma routed_row_is_logged:
  assumes facts: "engineFacts js"
    and r1: "routeBody js now r ss = Inr ss'" and r2: "ss' \<noteq> ss"
    and ledger: "\<And>l. getSheetByName ss LOG_SHEET = Some l \<Longrightarrow> 1 \<le> getLastRow (ss ! l)"
  shows "rowWasLogged js ss' r \<and> 1 \<le> r"
proof -
  from r1 r2 obtain d dst ss1 t hdr nxt where
    o0: "getSheetByName ss DROP_OFF_SHEET = Some d"
    and o: "1 \<le> r"
    and o1: "list_all (\<lambda>v. v \<noteq> Str []) (getValues (ss ! d) r 1 1 6 ! 0)"
       "\<not> rowWasLogged js ss r"
       "lookupDestination js ss (getValues (ss ! d) r 1 1 6 ! 0 ! 2) = Some dst"
       "name dst \<noteq> []"
    and o2: "getOrCreateSheet js ss (name dst) = (ss1, Some t)"
    and o3: "ensureHeaders js (ss1 ! t)
         (if toUpperCase js (trim js (name dst)) = ''ORDERS'' \<or> isDefault dst then ORDERS_HEADER else ACCOUNT_HEADER) = Inr hdr"
    and o4: "nextRowByFirstNCols (ss1[t := hdr] ! t) 6 = Inr nxt"
    and o5: "ss' = appendLog ((ss1[t := hdr])[t := setRowValues (ss1[t := hdr] ! t) nxt 1 (getValues (ss ! d) r 1 1 6 ! 0)])
             (buildKey js (getValues (ss ! d) r 1 1 6 ! 0)) (name dst) r now"
    by (rule routeBody_changed)
  let ?vals = "getValues (ss ! d) r 1 1 6 ! 0"
  let ?rec = "setRowValues hdr nxt 1 ?vals"
  let ?ss3 = "(ss1[t := hdr])[t := ?rec]"
  have h: "t < length ss1" "ss1 = ss \<or> (ss1 = ss @ [\<lparr>getName = trim js (name dst), cells = []\<rparr>] \<and> t = length ss)"
    using getOrCreateSheet_handle[OF o2] by auto
  have n: "nextRowByFirstNCols hdr 6 = Inr nxt" using o4 h(1) by simp
  have s: "ss' = appendLog ?ss3 (buildKey js ?vals) (name dst) r now" using o5 h(1) by simp
  from routed_record_sheet[OF facts o3 n, of ?vals]
  have rec: "1 \<le> getLastRow ?rec" "getName ?rec = getName (ss1 ! t)" by auto
  have names: "map getName ?ss3 = map getName ss1"
  proof -
    have "map getName ?ss3 = map getName (ss1[t := ?rec])" by simp
    also have "\<dots> = map getName ss1" using rec(2) by (rule names_update)
    finally show ?thesis .
  qed
  have ok: "1 \<le> getLastRow (?ss3 ! l)" if l: "getSheetByName ?ss3 LOG_SHEET = Some l" for l
  proof (cases "l = t")
    case True
    then show ?thesis using rec(1) h(1) by simp
  next
    case False
    have l1: "getSheetByName ss1 LOG_SHEET = Some l"
      using l getSheetByName_names[OF names, of LOG_SHEET] by simp
    then have ll: "l < length ss1" using getSheetByName_Some by blast
    have e: "?ss3 ! l = ss1 ! l" using False by simp
    from h(2) show ?thesis
    proof
      assume "ss1 = ss"
      then show ?thesis using l1 e ledger by simp
    next
      assume a: "ss1 = ss @ [\<lparr>getName = trim js (name dst), cells = []\<rparr>] \<and> t = length ss"
      then have lt: "l < length ss" using ll False by simp
      have "getSheetByName ss LOG_SHEET = Some l"
        using l1 a lt by (auto simp: getSheetByName_append split: option.splits if_splits)
      then have "1 \<le> getLastRow (ss ! l)" by (rule ledger)
      then show ?thesis using e a lt by (simp add: nth_append)
    qed
  qed
  have "rowWasLogged js (appendLog ?ss3 (buildKey js ?vals) (name dst) r now) r"
    using ok by (rule rowWasLogged_after_appendLog)
  then show ?thesis using s o by simp
qed

text \<open>
  Where the ledger tab is absent, or holds at least one non-blank row (its header),
  a routing leaves the row logged, and every later invocation for it returns the
  store unchanged.
\<close>

lemma routeRowSafe_noop_after_routing:
  assumes facts: "engineFacts js"
    and r1: "routeRowSafe js acquired now r ss = Inr ss'" and r2: "ss' \<noteq> ss"
    and ledger: "\<And>l. getSheetByName ss LOG_SHEET = Some l \<Longrightarrow> 1 \<le> getLastRow (ss ! l)"
  shows "repeatRoute js n acquired' now' r ss' = Inr ss'"
proof -
  have "routeBody js now r ss = Inr ss'" using r1 by (simp add: routeRowSafe_def withLock_def)
  from routed_row_is_logged[OF facts this r2 ledger] have "rowWasLogged js ss' r" "1 \<le> r" by auto
  then have "routeRowSafe js acquired' now' r ss' = Inr ss'"
    by (simp add: routeRowSafe_def withLock_def routeBody_logged)
  then show ?thesis by (induction n) simp_all
qed

section \<open>The claims\<close>

text \<open>
  C1 (idempotence), evaluated on the code: in a store whose ledger tab exists and is
  blank, the first invocation for the complete row 2 appends its ledger entry in row 1
  of the ledger, which \<^verbatim>\<open>rowWasLogged_\<close> never reads, and the second invocation
  routes the row again: two records in the destination, two rows in the ledger. Only
  the third invocation is without effect.
\<close>

theorem blank_ledger_routes_twice:
  "repeatRoute exEngine 1 True exNow 2 exBlankLedger = Inr exRoutedOnce
   \<and> repeatRoute exEngine 2 True exNow 2 exBlankLedger = Inr exRoutedTwice
   \<and> repeatRoute exEngine 3 True exNow 2 exBlankLedger = Inr exRoutedTwice
   \<and> exRoutedTwice \<noteq> exRoutedOnce
   \<and> \<not> rowWasLogged exEngine exRoutedOnce 2"
  by code_simp

text \<open>
  C2 (lock time-out), evaluated on the code: with \<^verbatim>\<open>tryLock\<close> returning
  \<^verbatim>\<open>false\<close> the routing of the complete row 2 runs as it does with the lock held,
  and changes the store.
\<close>

theorem lock_timeout_still_routes:
  "routeRowSafe exEngine False exNow 2 exStore = routeRowSafe exEngine True exNow 2 exStore
   \<and> routeRowSafe exEngine False exNow 2 exStore \<noteq> Inr exStore"
  by code_simp

text \<open>
  C3 (completeness gate). When the staging tab exists and one of the six cells in
  columns A to F of row \<open>r\<close> is blank, \<open>routeRowSafe\<close> returns the store as it was:
  no ledger entry, no write to a destination, whichever cells are blank and whatever
  \<^verbatim>\<open>tryLock\<close> returned.
\<close>

theorem completeness_gate:
  assumes "getSheetByName ss DROP_OFF_SHEET = Some d"
    and "1 \<le> r"
    and "1 \<le> c" and "c \<le> 6"
    and "cellAt (cells (ss ! d)) r c = Str []"
  shows "routeRowSafe js acquired now r ss = Inr ss"
proof -
  let ?vals = "getValues (ss ! d) r 1 1 6 ! 0"
  have v: "?vals = map (cellAt (cells (ss ! d)) r) [1 ..< 7]"
    using getValues_row[of "ss ! d" r 1 6] by simp
  have "c \<in> set [1 ..< 7]" using assms(3,4) by simp
  then have "cellAt (cells (ss ! d)) r c \<in> set ?vals" unfolding v by simp
  then have "\<not> list_all (\<lambda>v. v \<noteq> Str []) ?vals"
    using assms(5) by (auto simp: list_all_iff)
  then show ?thesis
    using assms(1,2) by (simp add: routeRowSafe_def withLock_def routeBody_def Let_def)
qed

theorem completeness_gate_witness:
  "routeRowSafe exEngine True exNow 3 exStore = Inr exStore"
proof -
  have 1: "getSheetByName exStore DROP_OFF_SHEET = Some 0" by code_simp
  have 2: "cellAt (cells (exStore ! 0)) 3 4 = Str []" by code_simp
  show ?thesis using completeness_gate[where js=exEngine and acquired=True and now=exNow, OF 1 _ _ _ 2] by simp
qed

text \<open>
  C4 as stated fails: without a configuration tab, or with one that holds its header
  only, the resolver returns \<^verbatim>\<open>null\<close>, not \<^verbatim>\<open>ORDERS\<close> flagged default.
\<close>

theorem lookupDestination_missing_config_counterexample:
  "lookupDestination exEngine exNoConfig (Str ''ACME'') \<noteq> Some \<lparr>name = ''ORDERS'', isDefault = True\<rparr>
   \<and> lookupDestination exEngine exHeaderOnlyConfig (Str ''ACME'') \<noteq> Some \<lparr>name = ''ORDERS'', isDefault = True\<rparr>"
  by code_simp

text \<open>
  C4, amended. When the configuration tab is absent, or its last row with data is
  below row 2, the resolver returns no destination (it is a function of the store and
  the key, and changes nothing), and \<open>routeRowSafe\<close> then leaves the store as it was.
\<close>

theorem lookupDestination_without_rules:
  assumes "getSheetByName ss CONFIG_SHEET = None
           \<or> (\<exists>cfg. getSheetByName ss CONFIG_SHEET = Some cfg \<and> getLastRow (ss ! cfg) < 2)"
  shows "lookupDestination js ss custm = None
         \<and> (routeRowSafe js acquired now r ss = Inr ss \<or> routeRowSafe js acquired now r ss = Inl RangeError)"
proof -
  have l: "\<And>k. lookupDestination js ss k = None"
    using assms by (auto simp: lookupDestination_def Let_def)
  show ?thesis
    using l by (simp add: routeRowSafe_def withLock_def routeBody_def Let_def split: option.splits)
qed

theorem lookupDestination_without_rules_witness:
  "lookupDestination exEngine exNoConfig (Str ''acme'') = None
   \<and> routeRowSafe exEngine True exNow 2 exNoConfig = Inr exNoConfig"
proof -
  have 1: "getSheetByName exNoConfig CONFIG_SHEET = None" by code_simp
  have 2: "routeRowSafe exEngine True exNow 2 exNoConfig \<noteq> Inl RangeError" by code_simp
  show ?thesis
    using lookupDestination_without_rules[where ss=exNoConfig and custm="Str ''acme''" and js=exEngine and acquired=True and now=exNow and r=2] 1 2 by simp
qed

text \<open>
  C5 as stated fails twice. A rule whose code cell is the number 0 equals the key 0
  after \<^verbatim>\<open>String\<close>, \<^verbatim>\<open>trim\<close> and \<^verbatim>\<open>toUpperCase\<close>, and is passed over by
  \<^verbatim>\<open>if (!code) continue\<close>. And a matching rule whose destination cell is the number
  0 has a destination that is not empty (it prints as \<^verbatim>\<open>0\<close>), and the name returned
  is the fallback, since \<^verbatim>\<open>target || defaultTarget || 'ORDERS'\<close> tests truthiness.
\<close>

theorem exact_match_zero_code_counterexample:
  "toUpperCase exEngine (trim exEngine (jsString exEngine (cellAt (cells (exZeroCode ! 1)) 2 1)))
     = toUpperCase exEngine (trim exEngine (jsString exEngine (Num 0)))
   \<and> cellAt (cells (exZeroCode ! 1)) 2 2 = Str ''ZERO_TAB''
   \<and> lookupDestination exEngine exZeroCode (Num 0) = Some \<lparr>name = ''ORDERS'', isDefault = True\<rparr>
   \<and> ruleMatches exEngine (Str ''ACME'') (configRows (exZeroTarget ! 1) ! 0)
   \<and> jsString exEngine (configRows (exZeroTarget ! 1) ! 0 ! 1) = ''0''
   \<and> lookupDestination exEngine exZeroTarget (Str ''ACME'') = Some \<lparr>name = ''ORDERS'', isDefault = False\<rparr>"
  by code_simp

text \<open>
  C5, amended. For every engine: in a configuration with data below its header, let
  row \<open>i\<close> be the first row whose code cell is truthy (not blank, not 0, not
  \<^verbatim>\<open>FALSE\<close>) and equals the key after \<^verbatim>\<open>String\<close> and the engine's \<^verbatim>\<open>trim\<close> and
  \<^verbatim>\<open>toUpperCase\<close> on both sides. The resolver
  returns that row's target as text, not flagged default, whatever default rules
  there are; when that target is falsy, the name is the active default, and
  \<^verbatim>\<open>ORDERS\<close> when there is none, still not flagged default.
\<close>

theorem exact_match_wins:
  assumes "getSheetByName ss CONFIG_SHEET = Some cfg"
    and "2 \<le> getLastRow (ss ! cfg)"
    and "i < length (configRows (ss ! cfg))"
    and "ruleMatches js custm (configRows (ss ! cfg) ! i)"
    and "\<forall>j < i. \<not> ruleMatches js custm (configRows (ss ! cfg) ! j)"
  shows "lookupDestination js ss custm =
         Some \<lparr>name =
                 (if truthy (configRows (ss ! cfg) ! i ! 1) then jsString js (configRows (ss ! cfg) ! i ! 1)
                  else case activeDefault js (configRows (ss ! cfg)) of
                         Some t \<Rightarrow> jsString js t | None \<Rightarrow> ''ORDERS''),
               isDefault = False\<rparr>"
proof -
  let ?rows = "configRows (ss ! cfg)"
  have split: "?rows = take i ?rows @ ?rows ! i # drop (Suc i) ?rows"
    using assms(3) by (simp add: id_take_nth_drop)
  have pre: "\<forall>row \<in> set (take i ?rows). \<not> ruleMatches js custm row"
  proof
    fix row assume "row \<in> set (take i ?rows)"
    then obtain j where "j < length (take i ?rows)" "take i ?rows ! j = row"
      by (auto simp: in_set_conv_nth)
    then have "j < i" "?rows ! j = row" by auto
    then show "\<not> ruleMatches js custm row" using assms(5) by auto
  qed
  have "matchLoop js custm (activeDefault js ?rows) ?rows =
        matchLoop js custm (activeDefault js ?rows) (take i ?rows @ ?rows ! i # drop (Suc i) ?rows)"
    using split by simp
  also have "\<dots> = \<lparr>name = jsString js (firstTruthy (?rows ! i ! 1) (activeDefault js ?rows)), isDefault = False\<rparr>"
    using pre assms(4) by (rule matchLoop_first_match)
  finally show ?thesis
    using lookupDestination_rows[OF assms(1,2)] by (simp add: firstTruthy_activeDefault)
qed

theorem exact_match_wins_witness:
  "lookupDestination exEngine exStore (Str '' Acme '') = Some \<lparr>name = ''ACME_TAB'', isDefault = False\<rparr>"
proof -
  have 1: "getSheetByName exStore CONFIG_SHEET = Some 1" by code_simp
  have 2: "2 \<le> getLastRow (exStore ! 1)" by code_simp
  have 3: "0 < length (configRows (exStore ! 1))" by code_simp
  have 4: "ruleMatches exEngine (Str '' Acme '') (configRows (exStore ! 1) ! 0)" by code_simp
  have 5: "truthy (configRows (exStore ! 1) ! 0 ! 1)" by code_simp
  have 6: "jsString exEngine (configRows (exStore ! 1) ! 0 ! 1) = ''ACME_TAB''" by code_simp
  show ?thesis
    using exact_match_wins[OF 1 2 3 4] 5 6 by simp
qed

text \<open>
  C6 as stated fails twice: the last flagged row of \<open>exTwoDefaults\<close> has a blank
  target and the resolver keeps the target of the flagged row before it; and a
  configuration with its header only has no matching rule and no flagged rule, and
  the resolver returns \<^verbatim>\<open>null\<close>.
\<close>

theorem default_last_flagged_counterexample:
  "\<not> list_ex (ruleMatches exEngine (Str ''Z'')) (configRows (exTwoDefaults ! 1))
   \<and> lookupDestination exEngine exTwoDefaults (Str ''Z'')
       \<noteq> Some \<lparr>name = claimedDefault exEngine (configRows (exTwoDefaults ! 1)), isDefault = True\<rparr>
   \<and> lookupDestination exEngine exTwoDefaults (Str ''Z'') = Some \<lparr>name = ''T1'', isDefault = True\<rparr>
   \<and> lookupDestination exEngine exHeaderOnlyConfig (Str ''Z'') = None"
  by code_simp

text \<open>
  C6, amended. For every engine: in a configuration with data below its header and
  no row that matches the key, the resolver returns the active default flagged default: the target, as
  text, of the last row in table order that carries the flag (\<^verbatim>\<open>TRUE\<close> in any case)
  and a truthy target, and \<^verbatim>\<open>ORDERS\<close> when no row does.
\<close>

theorem no_match_gives_default:
  assumes "getSheetByName ss CONFIG_SHEET = Some cfg"
    and "2 \<le> getLastRow (ss ! cfg)"
    and "\<forall>row \<in> set (configRows (ss ! cfg)). \<not> ruleMatches js custm row"
  shows "lookupDestination js ss custm =
         Some \<lparr>name = (case activeDefault js (configRows (ss ! cfg)) of
                         Some t \<Rightarrow> jsString js t | None \<Rightarrow> ''ORDERS''),
               isDefault = True\<rparr>"
  using lookupDestination_rows[OF assms(1,2)] matchLoop_no_match[OF assms(3)]
  by (simp add: firstTruthy_activeDefault)

theorem no_match_gives_default_witness:
  "lookupDestination exEngine exStore (Str ''zzz'') = Some \<lparr>name = ''ORDERS'', isDefault = True\<rparr>"
proof -
  have 1: "getSheetByName exStore CONFIG_SHEET = Some 1" by code_simp
  have 2: "2 \<le> getLastRow (exStore ! 1)" by code_simp
  have "list_all (\<lambda>row. \<not> ruleMatches exEngine (Str ''zzz'') row) (configRows (exStore ! 1))" by code_simp
  then have 3: "\<forall>row \<in> set (configRows (exStore ! 1)). \<not> ruleMatches exEngine (Str ''zzz'') row"
    by (simp add: list_all_iff)
  have 4: "activeDefault exEngine (configRows (exStore ! 1)) = Some (Str ''ORDERS'')" by code_simp
  show ?thesis
    using no_match_gives_default[OF 1 2 3] 4 by simp
qed

text \<open>
  C7 as stated fails: with a blank row between rows that hold data, the row returned
  is the one after the last row with data, not the first row below the header whose
  first columns are blank.
\<close>

theorem nextRow_gap_counterexample:
  "nextRowByFirstNCols exGap 6 = Inr 5 \<and> \<not> hasDataIn exGap 6 3 \<and> hasDataIn exGap 6 2"
  by code_simp

text \<open>
  C7, amended. For a width \<open>N \<ge> 1\<close>, \<open>nextRowByFirstNCols\<close> returns a row \<open>r \<ge> 2\<close>
  such that no row from \<open>r\<close> on holds data in its first \<open>N\<close> columns and, unless
  \<open>r = 2\<close>, row \<open>r - 1\<close> does: the row after the last row with data in those
  columns, and row 2 when no row below the header has any. Only cells of the first
  \<open>N\<close> columns occur in the statement, so that values beyond them have no influence.
\<close>

theorem nextRow_after_last_data:
  assumes "1 \<le> N"
  shows "\<exists>r. nextRowByFirstNCols sh N = Inr r \<and> 2 \<le> r
             \<and> (\<forall>r'. r \<le> r' \<longrightarrow> \<not> hasDataIn sh N r')
             \<and> (r = 2 \<or> hasDataIn sh N (r - 1))"
  using assms by (rule nextRow_characterisation)

theorem nextRow_after_last_data_witness:
  "nextRowByFirstNCols exDestination 6 = Inr 6
   \<and> cellAt (cells exDestination) 6 7 = Str ''stray''
   \<and> \<not> hasDataIn exDestination 6 6 \<and> hasDataIn exDestination 6 5"
proof -
  have e: "nextRowByFirstNCols exDestination 6 = Inr 6" by code_simp
  have s: "cellAt (cells exDestination) 6 7 = Str ''stray''" by code_simp
  from nextRow_after_last_data[of 6 exDestination] obtain r where
    r: "nextRowByFirstNCols exDestination 6 = Inr r"
       "\<forall>r'. r \<le> r' \<longrightarrow> \<not> hasDataIn exDestination 6 r'"
       "r = 2 \<or> hasDataIn exDestination 6 (r - 1)"
    by auto
  from r(1) e have "r = 6" by simp
  with r(2,3) e s show ?thesis by simp
qed

text \<open>
  C8 (header non-destruction). For a non-empty expected header: when the header row
  matches it cell by cell after \<^verbatim>\<open>String\<close> and \<^verbatim>\<open>toUpperCase\<close>, \<open>ensureHeaders\<close>
  returns the sheet as it was; and whenever the sheet it returns differs from the one
  it was given, the header row did not match, the first cells of row 1 are the
  expected header, and every other cell and the name are as before.
\<close>

theorem ensureHeaders_keeps_matching_header:
  assumes "header \<noteq> []"
  shows "(headerMatches js sh header \<longrightarrow> ensureHeaders js sh header = Inr sh)
       \<and> (\<exists>sh'. ensureHeaders js sh header = Inr sh'
             \<and> (sh' \<noteq> sh \<longrightarrow>
                  \<not> headerMatches js sh header
                  \<and> getName sh' = getName sh
                  \<and> (\<forall>c. 1 \<le> c \<and> c \<le> length header \<longrightarrow> cellAt (cells sh') 1 c = Str (header ! (c - 1)))
                  \<and> (\<forall>r c. r \<noteq> 1 \<or> length header < c \<longrightarrow> cellAt (cells sh') r c = cellAt (cells sh) r c)))"
proof -
  let ?w = "setRowValues sh 1 1 (map Str header)"
  have c: "cellAt (cells ?w) (r::nat) (c::nat) =
        (if r = 1 \<and> 1 \<le> c \<and> c < 1 + length (map Str header) then map Str header ! (c - 1)
         else cellAt (cells sh) r c)" for r c :: nat
    by (rule cellAt_setRowValues) simp_all
  have n: "getName ?w = getName sh" by (simp add: setRowValues_def Let_def)
  have w1: "\<forall>c. 1 \<le> c \<and> c \<le> length header \<longrightarrow> cellAt (cells ?w) 1 c = Str (header ! (c - 1))"
  proof (intro allI impI)
    fix c assume a: "1 \<le> c \<and> c \<le> length header"
    then have "c - 1 < length header" by arith
    then have "map Str header ! (c - 1) = Str (header ! (c - 1))" by (rule nth_map)
    moreover have "cellAt (cells ?w) 1 c = map Str header ! (c - 1)"
      unfolding c using a by simp
    ultimately show "cellAt (cells ?w) 1 c = Str (header ! (c - 1))" by simp
  qed
  have w2: "\<forall>r c. r \<noteq> 1 \<or> length header < c \<longrightarrow> cellAt (cells ?w) r c = cellAt (cells sh) r c"
  proof (intro allI impI)
    fix r c :: nat
    assume "r \<noteq> 1 \<or> length header < c"
    then show "cellAt (cells ?w) r c = cellAt (cells sh) r c"
      unfolding c by auto
  qed
  show ?thesis
    using ensureHeaders_cases[OF assms, of js sh] n w1 w2
    by (auto simp: headerMatches_def)
qed

theorem ensureHeaders_keeps_matching_header_witness:
  "ensureHeaders exEngine exLowerHeader ACCOUNT_HEADER = Inr exLowerHeader
   \<and> ensureHeaders exEngine exConfig ACCOUNT_HEADER \<noteq> Inr exConfig
   \<and> \<not> headerMatches exEngine exConfig ACCOUNT_HEADER"
proof -
  have 1: "ACCOUNT_HEADER \<noteq> []" by code_simp
  have 2: "headerMatches exEngine exLowerHeader ACCOUNT_HEADER" by code_simp
  have 3: "ensureHeaders exEngine exConfig ACCOUNT_HEADER \<noteq> Inr exConfig" by code_simp
  show ?thesis
    using ensureHeaders_keeps_matching_header[OF 1, where js=exEngine and sh=exLowerHeader]
      ensureHeaders_keeps_matching_header[OF 1, where js=exEngine and sh=exConfig] 2 3
    by auto
qed

text \<open>
  C9 as stated fails: for a requested name with surrounding white space that no tab
  matches, the tab created is named by the trimmed name, not by the name requested.
\<close>

theorem getOrCreateSheet_trims_counterexample:
  "\<not> list_ex (\<lambda>s. sameTabName exEngine (getName s) '' West '') exStore
   \<and> map getName (fst (getOrCreateSheet exEngine exStore '' West '')) = [''DROP_OFF'', ''CONFIG'', ''West'']
   \<and> getName (last (fst (getOrCreateSheet exEngine exStore '' West ''))) \<noteq> '' West ''"
  by code_simp

text \<open>
  C9, amended. For every engine with the facts of the standard: when some tab's name
  equals the requested name up to surrounding white space and letter case (the
  engine's \<^verbatim>\<open>trim\<close> and \<^verbatim>\<open>toUpperCase\<close>), \<open>getOrCreateSheet\<close> leaves the store
  as it is and returns such a tab; when none does, it adds a blank tab whose name is
  the requested name with its surrounding white space trimmed (letter case kept),
  and returns it.
\<close>

theorem getOrCreateSheet_matches_or_creates:
  assumes "engineFacts js"
  shows "(list_ex (\<lambda>s. sameTabName js (getName s) nm) ss \<longrightarrow>
      (\<exists>i < length ss. getOrCreateSheet js ss nm = (ss, Some i) \<and> sameTabName js (getName (ss ! i)) nm))
   \<and> (\<not> list_ex (\<lambda>s. sameTabName js (getName s) nm) ss \<longrightarrow>
      getOrCreateSheet js ss nm = (ss @ [\<lparr>getName = trim js nm, cells = []\<rparr>], Some (length ss)))"
  using assms by (rule getOrCreateSheet_cases)

theorem getOrCreateSheet_matches_or_creates_witness:
  "getOrCreateSheet exEngine exStore '' config '' = (exStore, Some 1)
   \<and> getOrCreateSheet exEngine exStore '' West '' = (exStore @ [\<lparr>getName = ''West'', cells = []\<rparr>], Some 2)"
proof -
  have 1: "list_ex (\<lambda>s. sameTabName exEngine (getName s) '' config '') exStore" by code_simp
  have 2: "\<not> list_ex (\<lambda>s. sameTabName exEngine (getName s) '' West '') exStore" by code_simp
  have 3: "getOrCreateSheet exEngine exStore '' config '' = (exStore, Some 1)" by code_simp
  have 4: "trim exEngine '' West '' = ''West''" by code_simp
  have 5: "length exStore = 2" by code_simp
  show ?thesis
    using getOrCreateSheet_matches_or_creates[OF engineFacts_exEngine, where nm="'' West ''" and ss=exStore]
      getOrCreateSheet_matches_or_creates[OF engineFacts_exEngine, where nm="'' config ''" and ss=exStore] 1 2 3 4 5 by simp
qed

text \<open>
  C10 (header layout). For every engine with the facts of the standard: whenever
  \<open>routeRowSafe\<close> routes a row (it returns a store
  that differs from the one it was given), the header row of the destination tab
  matches the full six-column layout when the resolved name is \<^verbatim>\<open>ORDERS\<close> after
  trimming and upper-casing, whether or not the resolver flagged it default, and also
  when it is flagged default; it matches the four-column layout only when the
  destination is neither.
\<close>

theorem orders_name_gets_full_header:
  assumes "engineFacts js"
    and "routeRowSafe js acquired now r ss = Inr ss'" and "ss' \<noteq> ss"
    and "getSheetByName ss DROP_OFF_SHEET = Some d"
    and "lookupDestination js ss (cellAt (cells (ss ! d)) r 3) = Some dst"
    and "getOrCreateSheet js ss (name dst) = (ss1, Some t)"
  shows "headerMatches js (ss' ! t)
           (if toUpperCase js (trim js (name dst)) = ''ORDERS'' \<or> isDefault dst then ORDERS_HEADER else ACCOUNT_HEADER)"
proof -
  have "routeBody js now r ss = Inr ss'" using assms(2) by (simp add: routeRowSafe_def withLock_def)
  with assms(1) show ?thesis using assms(3-6) by (rule routed_header)
qed

theorem orders_name_gets_full_header_witness:
  "lookupDestination exEngine exOrdersRule (Str ''acme'') = Some \<lparr>name = '' orders '', isDefault = False\<rparr>
   \<and> routeRowSafe exEngine True exNow 2 exOrdersRule = Inr exOrdersRouted
   \<and> headerMatches exEngine (exOrdersRouted ! 2) ORDERS_HEADER"
proof -
  have 1: "routeRowSafe exEngine True exNow 2 exOrdersRule = Inr exOrdersRouted" by code_simp
  have 2: "exOrdersRouted \<noteq> exOrdersRule" by code_simp
  have 3: "getSheetByName exOrdersRule DROP_OFF_SHEET = Some 0" by code_simp
  have 4: "lookupDestination exEngine exOrdersRule (cellAt (cells (exOrdersRule ! 0)) 2 3)
           = Some \<lparr>name = '' orders '', isDefault = False\<rparr>" by code_simp
  have 5: "getOrCreateSheet exEngine exOrdersRule (name \<lparr>name = '' orders '', isDefault = False\<rparr>)
           = (exOrdersRule @ [\<lparr>getName = ''orders'', cells = []\<rparr>], Some 2)" by code_simp
  have 6: "toUpperCase exEngine (trim exEngine '' orders '') = ''ORDERS''" by code_simp
  have 7: "lookupDestination exEngine exOrdersRule (Str ''acme'') = Some \<lparr>name = '' orders '', isDefault = False\<rparr>"
    by code_simp
  show ?thesis
    using orders_name_gets_full_header[OF engineFacts_exEngine 1 2 3 4 5] 1 6 7 by simp
qed

end
